theory Spec2Isabelle
  imports Complex_Main "HOL-Library.Word" "HOL-Library.Multiset"
begin

unbundle bit_operations_syntax

section \<open>Data model of the pixel sorter\<close>

text \<open>
  The engine of \<^verbatim>\<open>utils/pixelSort.js\<close> works on two typed arrays: the RGBA bytes of the
  image (a \<^verbatim>\<open>Uint8ClampedArray\<close>) and a working buffer of packed colours (an
  \<^verbatim>\<open>Int32Array\<close>). Both are lists of machine words here. Indices, widths and heights are
  JavaScript numbers that hold integers, so they are \<open>int\<close>: the scans return \<open>-1\<close>.
\<close>

type_synonym u8array = "8 word list"
type_synonym int32array = "32 word list"

text \<open>
  Reading a typed array outside its range gives \<^verbatim>\<open>undefined\<close> (\<open>None\<close>); writing outside
  its range is ignored, and writing \<^verbatim>\<open>undefined\<close> stores 0.
\<close>

definition getElem :: "'a list \<Rightarrow> int \<Rightarrow> 'a option" where
  "getElem xs i = (if 0 \<le> i \<and> i < int (length xs) then Some (xs ! nat i) else None)"

definition setElem :: "('a::zero) list \<Rightarrow> int \<Rightarrow> 'a option \<Rightarrow> 'a list" where
  "setElem xs i v =
     (if 0 \<le> i \<and> i < int (length xs)
      then xs[nat i := (case v of None \<Rightarrow> 0 | Some w \<Rightarrow> w)] else xs)"

text \<open>
  The four threshold fields of \<^verbatim>\<open>PixelSorter\<close>, the constructor's defaults and
  \<^verbatim>\<open>setThresholds\<close>. The application rounds its sliders, so the thresholds are integers.
\<close>

record thresholds =
  whiteValue :: int
  blackValue :: int
  brightValue :: int
  darkValue :: int

definition PixelSorter :: thresholds where
  "PixelSorter =
     \<lparr>whiteValue = - 12345678, blackValue = - 3456789, brightValue = 127, darkValue = 223\<rparr>"

definition setThresholds :: "int \<Rightarrow> int \<Rightarrow> int \<Rightarrow> int \<Rightarrow> thresholds" where
  "setThresholds w b br d = \<lparr>whiteValue = w, blackValue = b, brightValue = br, darkValue = d\<rparr>"

text \<open>
  The sorting modes, numbered 0 to 3 in the source: 0 white, 1 black, 2 bright, 3 dark.
  The \<^verbatim>\<open>switch\<close> statements have no other case, and the application offers no other
  mode, so the type has these four values.
\<close>

datatype mode = White | Black | Bright | Dark

text \<open>
  \<^verbatim>\<open>pixels[i] < t\<close> and \<^verbatim>\<open>pixels[i] > t\<close>: the element is read as a signed 32-bit
  integer; against \<^verbatim>\<open>undefined\<close> both comparisons are false.
\<close>

definition js_lt :: "32 word option \<Rightarrow> int \<Rightarrow> bool" where
  "js_lt v t = (case v of None \<Rightarrow> False | Some w \<Rightarrow> sint w < t)"

definition js_gt :: "32 word option \<Rightarrow> int \<Rightarrow> bool" where
  "js_gt v t = (case v of None \<Rightarrow> False | Some w \<Rightarrow> t < sint w)"

text \<open>
  \<^verbatim>\<open>getBrightness\<close> splits the colour into its bytes and returns
  \<^verbatim>\<open>Math.round(0.299 * r + 0.587 * g + 0.114 * b)\<close>, computed in double precision. The
  rounded double expression is the parameter \<open>luma\<close> of everything below, so that every
  theorem holds of the value the floating-point unit returns, whatever it is. On
  \<^verbatim>\<open>undefined\<close> the shifts see 0.
\<close>

type_synonym luma = "nat \<Rightarrow> nat \<Rightarrow> nat \<Rightarrow> int"

definition getBrightness :: "luma \<Rightarrow> 32 word option \<Rightarrow> int" where
  "getBrightness luma color =
     (let c = (case color of None \<Rightarrow> 0 | Some w \<Rightarrow> w);
          r = unat (signed_drop_bit 16 c AND 0xFF);
          g = unat (signed_drop_bit 8 c AND 0xFF);
          b = unat (c AND 0xFF)
      in luma r g b)"

text \<open>
  The weighted sum rounded in exact arithmetic. It agrees with the double computation
  wherever \<open>299 r + 587 g + 114 b\<close> is not 500 modulo 1000, in particular on every grey
  and on the pure colours; it only instantiates \<open>luma\<close> in the concrete examples.
\<close>

definition luma_exact :: luma where
  "luma_exact r g b = (299 * int r + 587 * int g + 114 * int b + 500) div 1000"

section \<open>Run detection\<close>

text \<open>
  The sixteen threshold functions share two loops. \<open>scanFirst\<close> is
  \<^verbatim>\<open>while (c(k)) { k++; if (k >= bound) return -1; } return k;\<close> and \<open>scanNext\<close> is
  \<^verbatim>\<open>while (c(k)) { k++; if (k >= bound) return bound - 1; } return k - 1;\<close>
  where \<open>c k\<close> is the loop's test at position \<open>k\<close> of the scanline.
\<close>

function scanFirst :: "(int \<Rightarrow> bool) \<Rightarrow> int \<Rightarrow> int \<Rightarrow> int" where
  "scanFirst c bound k =
     (if c k then (if bound \<le> k + 1 then - 1 else scanFirst c bound (k + 1)) else k)"
  by pat_completeness auto
termination
  by (relation "measure (\<lambda>(c, bound, k). nat (bound - k))") auto

function scanNext :: "(int \<Rightarrow> bool) \<Rightarrow> int \<Rightarrow> int \<Rightarrow> int" where
  "scanNext c bound k =
     (if c k then (if bound \<le> k + 1 then bound - 1 else scanNext c bound (k + 1)) else k - 1)"
  by pat_completeness auto
termination
  by (relation "measure (\<lambda>(c, bound, k). nat (bound - k))") auto

declare scanFirst.simps [simp del] scanNext.simps [simp del]

subsection \<open>X axis\<close>

definition getFirstNoneWhiteX :: "thresholds \<Rightarrow> int32array \<Rightarrow> int \<Rightarrow> int \<Rightarrow> int \<Rightarrow> int" where
  "getFirstNoneWhiteX th pixels width x y =
     scanFirst (\<lambda>x. js_lt (getElem pixels (x + y * width)) (whiteValue th)) width x"

definition getNextWhiteX :: "thresholds \<Rightarrow> int32array \<Rightarrow> int \<Rightarrow> int \<Rightarrow> int \<Rightarrow> int" where
  "getNextWhiteX th pixels width x y =
     scanNext (\<lambda>x. js_gt (getElem pixels (x + y * width)) (whiteValue th)) width (x + 1)"

definition getFirstNoneBlackX :: "thresholds \<Rightarrow> int32array \<Rightarrow> int \<Rightarrow> int \<Rightarrow> int \<Rightarrow> int" where
  "getFirstNoneBlackX th pixels width x y =
     scanFirst (\<lambda>x. js_gt (getElem pixels (x + y * width)) (blackValue th)) width x"

definition getNextBlackX :: "thresholds \<Rightarrow> int32array \<Rightarrow> int \<Rightarrow> int \<Rightarrow> int \<Rightarrow> int" where
  "getNextBlackX th pixels width x y =
     scanNext (\<lambda>x. js_lt (getElem pixels (x + y * width)) (blackValue th)) width (x + 1)"

definition getFirstNoneBrightX ::
  "luma \<Rightarrow> thresholds \<Rightarrow> int32array \<Rightarrow> int \<Rightarrow> int \<Rightarrow> int \<Rightarrow> int" where
  "getFirstNoneBrightX luma th pixels width x y =
     scanFirst (\<lambda>x. getBrightness luma (getElem pixels (x + y * width)) < brightValue th) width x"

definition getNextBrightX ::
  "luma \<Rightarrow> thresholds \<Rightarrow> int32array \<Rightarrow> int \<Rightarrow> int \<Rightarrow> int \<Rightarrow> int" where
  "getNextBrightX luma th pixels width x y =
     scanNext (\<lambda>x. brightValue th < getBrightness luma (getElem pixels (x + y * width)))
       width (x + 1)"

definition getFirstNoneDarkX ::
  "luma \<Rightarrow> thresholds \<Rightarrow> int32array \<Rightarrow> int \<Rightarrow> int \<Rightarrow> int \<Rightarrow> int" where
  "getFirstNoneDarkX luma th pixels width x y =
     scanFirst (\<lambda>x. darkValue th < getBrightness luma (getElem pixels (x + y * width))) width x"

definition getNextDarkX ::
  "luma \<Rightarrow> thresholds \<Rightarrow> int32array \<Rightarrow> int \<Rightarrow> int \<Rightarrow> int \<Rightarrow> int" where
  "getNextDarkX luma th pixels width x y =
     scanNext (\<lambda>x. getBrightness luma (getElem pixels (x + y * width)) < darkValue th)
       width (x + 1)"

subsection \<open>Y axis\<close>

text \<open>The Y functions guard their loop with \<^verbatim>\<open>if (y < height)\<close>.\<close>

definition getFirstNoneWhiteY ::
  "thresholds \<Rightarrow> int32array \<Rightarrow> int \<Rightarrow> int \<Rightarrow> int \<Rightarrow> int \<Rightarrow> int" where
  "getFirstNoneWhiteY th pixels width height x y =
     (if y < height
      then scanFirst (\<lambda>y. js_lt (getElem pixels (x + y * width)) (whiteValue th)) height y
      else y)"

definition getNextWhiteY ::
  "thresholds \<Rightarrow> int32array \<Rightarrow> int \<Rightarrow> int \<Rightarrow> int \<Rightarrow> int \<Rightarrow> int" where
  "getNextWhiteY th pixels width height x y =
     (if y + 1 < height
      then scanNext (\<lambda>y. js_gt (getElem pixels (x + y * width)) (whiteValue th)) height (y + 1)
      else (y + 1) - 1)"

definition getFirstNoneBlackY ::
  "thresholds \<Rightarrow> int32array \<Rightarrow> int \<Rightarrow> int \<Rightarrow> int \<Rightarrow> int \<Rightarrow> int" where
  "getFirstNoneBlackY th pixels width height x y =
     (if y < height
      then scanFirst (\<lambda>y. js_gt (getElem pixels (x + y * width)) (blackValue th)) height y
      else y)"

definition getNextBlackY ::
  "thresholds \<Rightarrow> int32array \<Rightarrow> int \<Rightarrow> int \<Rightarrow> int \<Rightarrow> int \<Rightarrow> int" where
  "getNextBlackY th pixels width height x y =
     (if y + 1 < height
      then scanNext (\<lambda>y. js_lt (getElem pixels (x + y * width)) (blackValue th)) height (y + 1)
      else (y + 1) - 1)"

definition getFirstNoneBrightY ::
  "luma \<Rightarrow> thresholds \<Rightarrow> int32array \<Rightarrow> int \<Rightarrow> int \<Rightarrow> int \<Rightarrow> int \<Rightarrow> int" where
  "getFirstNoneBrightY luma th pixels width height x y =
     (if y < height
      then scanFirst (\<lambda>y. getBrightness luma (getElem pixels (x + y * width)) < brightValue th)
             height y
      else y)"

definition getNextBrightY ::
  "luma \<Rightarrow> thresholds \<Rightarrow> int32array \<Rightarrow> int \<Rightarrow> int \<Rightarrow> int \<Rightarrow> int \<Rightarrow> int" where
  "getNextBrightY luma th pixels width height x y =
     (if y + 1 < height
      then scanNext (\<lambda>y. brightValue th < getBrightness luma (getElem pixels (x + y * width)))
             height (y + 1)
      else (y + 1) - 1)"

definition getFirstNoneDarkY ::
  "luma \<Rightarrow> thresholds \<Rightarrow> int32array \<Rightarrow> int \<Rightarrow> int \<Rightarrow> int \<Rightarrow> int \<Rightarrow> int" where
  "getFirstNoneDarkY luma th pixels width height x y =
     (if y < height
      then scanFirst (\<lambda>y. darkValue th < getBrightness luma (getElem pixels (x + y * width)))
             height y
      else y)"

definition getNextDarkY ::
  "luma \<Rightarrow> thresholds \<Rightarrow> int32array \<Rightarrow> int \<Rightarrow> int \<Rightarrow> int \<Rightarrow> int \<Rightarrow> int" where
  "getNextDarkY luma th pixels width height x y =
     (if y + 1 < height
      then scanNext (\<lambda>y. getBrightness luma (getElem pixels (x + y * width)) < darkValue th)
             height (y + 1)
      else (y + 1) - 1)"

subsection \<open>The switch on the mode\<close>

text \<open>The \<^verbatim>\<open>switch (mode)\<close> of \<^verbatim>\<open>sortRow\<close>: the new \<open>x\<close> and \<open>xEnd\<close>.\<close>

definition scanRow ::
  "luma \<Rightarrow> thresholds \<Rightarrow> mode \<Rightarrow> int32array \<Rightarrow> int \<Rightarrow> int \<Rightarrow> int \<Rightarrow> int \<times> int" where
  "scanRow luma th mode pixels width x row =
     (case mode of
        White \<Rightarrow> (let x' = getFirstNoneWhiteX th pixels width x row
                  in (x', getNextWhiteX th pixels width x' row))
      | Black \<Rightarrow> (let x' = getFirstNoneBlackX th pixels width x row
                  in (x', getNextBlackX th pixels width x' row))
      | Bright \<Rightarrow> (let x' = getFirstNoneBrightX luma th pixels width x row
                   in (x', getNextBrightX luma th pixels width x' row))
      | Dark \<Rightarrow> (let x' = getFirstNoneDarkX luma th pixels width x row
                 in (x', getNextDarkX luma th pixels width x' row)))"

text \<open>The \<^verbatim>\<open>switch (mode)\<close> of \<^verbatim>\<open>sortColumn\<close>: the new \<open>y\<close> and \<open>yEnd\<close>.\<close>

definition scanColumn ::
  "luma \<Rightarrow> thresholds \<Rightarrow> mode \<Rightarrow> int32array \<Rightarrow> int \<Rightarrow> int \<Rightarrow> int \<Rightarrow> int \<Rightarrow> int \<times> int" where
  "scanColumn luma th mode pixels width height column y =
     (case mode of
        White \<Rightarrow> (let y' = getFirstNoneWhiteY th pixels width height column y
                  in (y', getNextWhiteY th pixels width height column y'))
      | Black \<Rightarrow> (let y' = getFirstNoneBlackY th pixels width height column y
                  in (y', getNextBlackY th pixels width height column y'))
      | Bright \<Rightarrow> (let y' = getFirstNoneBrightY luma th pixels width height column y
                   in (y', getNextBrightY luma th pixels width height column y'))
      | Dark \<Rightarrow> (let y' = getFirstNoneDarkY luma th pixels width height column y
                 in (y', getNextDarkY luma th pixels width height column y')))"

section \<open>Progress of the scans\<close>

lemma scanFirst_cases: "scanFirst c bound k = - 1 \<or> k \<le> scanFirst c bound k"
proof (induction c bound k rule: scanFirst.induct)
  case (1 c bound k)
  then show ?case
    by (subst (1 2) scanFirst.simps) auto
qed

lemma scanNext_cases: "scanNext c bound k = bound - 1 \<or> k - 1 \<le> scanNext c bound k"
proof (induction c bound k rule: scanNext.induct)
  case (1 c bound k)
  then show ?case
    by (subst (1 2) scanNext.simps) auto
qed

text \<open>
  The loop tests by mode, and the two scans of one iteration with the Y functions'
  guard as a flag: the sixteen functions are instances of these.
\<close>

definition startTest :: "luma \<Rightarrow> thresholds \<Rightarrow> mode \<Rightarrow> 32 word option \<Rightarrow> bool" where
  "startTest luma th mode v =
     (case mode of
        White \<Rightarrow> js_lt v (whiteValue th)
      | Black \<Rightarrow> js_gt v (blackValue th)
      | Bright \<Rightarrow> getBrightness luma v < brightValue th
      | Dark \<Rightarrow> darkValue th < getBrightness luma v)"

definition nextTest :: "luma \<Rightarrow> thresholds \<Rightarrow> mode \<Rightarrow> 32 word option \<Rightarrow> bool" where
  "nextTest luma th mode v =
     (case mode of
        White \<Rightarrow> js_gt v (whiteValue th)
      | Black \<Rightarrow> js_lt v (blackValue th)
      | Bright \<Rightarrow> brightValue th < getBrightness luma v
      | Dark \<Rightarrow> getBrightness luma v < darkValue th)"

definition lineFirst :: "bool \<Rightarrow> (int \<Rightarrow> bool) \<Rightarrow> int \<Rightarrow> int \<Rightarrow> int" where
  "lineFirst guard c bound k = (if guard \<and> \<not> k < bound then k else scanFirst c bound k)"

definition lineNext :: "bool \<Rightarrow> (int \<Rightarrow> bool) \<Rightarrow> int \<Rightarrow> int \<Rightarrow> int" where
  "lineNext guard c bound k =
     (if guard \<and> \<not> k + 1 < bound then k else scanNext c bound (k + 1))"

lemma scanRow_line:
  "scanRow luma th mode pixels width x row =
     (let x' = lineFirst False (\<lambda>k. startTest luma th mode (getElem pixels (k + row * width)))
                 width x
      in (x', lineNext False (\<lambda>k. nextTest luma th mode (getElem pixels (k + row * width)))
                 width x'))"
  by (cases mode)
    (simp_all add: scanRow_def startTest_def nextTest_def lineFirst_def lineNext_def Let_def
      getFirstNoneWhiteX_def getNextWhiteX_def getFirstNoneBlackX_def getNextBlackX_def
      getFirstNoneBrightX_def getNextBrightX_def getFirstNoneDarkX_def getNextDarkX_def)

lemma scanColumn_line:
  "scanColumn luma th mode pixels width height column y =
     (let y' = lineFirst True (\<lambda>k. startTest luma th mode (getElem pixels (column + k * width)))
                 height y
      in (y', lineNext True (\<lambda>k. nextTest luma th mode (getElem pixels (column + k * width)))
                 height y'))"
  by (cases mode)
    (simp_all add: scanColumn_def startTest_def nextTest_def lineFirst_def lineNext_def Let_def
      getFirstNoneWhiteY_def getNextWhiteY_def getFirstNoneBlackY_def getNextBlackY_def
      getFirstNoneBrightY_def getNextBrightY_def getFirstNoneDarkY_def getNextDarkY_def)

lemma lineFirst_cases: "lineFirst g c bound k = - 1 \<or> k \<le> lineFirst g c bound k"
  using scanFirst_cases [of c bound k] by (simp add: lineFirst_def)

lemma lineNext_cases: "lineNext g c bound k = bound - 1 \<or> k \<le> lineNext g c bound k"
  using scanNext_cases [of c bound "k + 1"] by (simp add: lineNext_def)

lemma line_progress:
  assumes "0 \<le> lineFirst g c bound x"
    and "lineNext g c' bound (lineFirst g c bound x) < bound - 1"
  shows "x \<le> lineNext g c' bound (lineFirst g c bound x)"
  using assms lineFirst_cases [of g c bound x]
    lineNext_cases [of g c' bound "lineFirst g c bound x"]
  by linarith

section \<open>Sorting one run\<close>

text \<open>
  \<^verbatim>\<open>unsorted.sort((a, b) => a - b)\<close>: ascending by the signed value; elements that are
  \<^verbatim>\<open>undefined\<close> go last.
\<close>

definition js_sort :: "32 word option list \<Rightarrow> 32 word option list" where
  "js_sort xs = map Some (sort_key sint (List.map_filter id xs)) @ filter (\<lambda>v. v = None) xs"

text \<open>
  The block under \<^verbatim>\<open>const sortingLength = ...\<close> in \<^verbatim>\<open>sortRow\<close> and
  \<^verbatim>\<open>sortColumn\<close>: gather \<open>sortingLength\<close> elements, sort them, write them back. \<open>idx i\<close>
  is the buffer index of the \<open>i\<close>-th element: \<^verbatim>\<open>x + i + row * width\<close> in a row,
  \<^verbatim>\<open>column + (y + i) * width\<close> in a column.
\<close>

definition sortRun :: "(int \<Rightarrow> int) \<Rightarrow> int32array \<Rightarrow> int \<Rightarrow> int32array" where
  "sortRun idx pixels sortingLength =
     (if 1 < sortingLength then
        let unsorted = map (\<lambda>i. getElem pixels (idx (int i))) [0..<nat sortingLength];
            sorted = js_sort unsorted
        in foldl (\<lambda>p i. setElem p (idx (int i)) (sorted ! i)) pixels [0..<nat sortingLength]
      else pixels)"

section \<open>The scanline loops\<close>

function sortRow_loop ::
  "luma \<Rightarrow> thresholds \<Rightarrow> int32array \<Rightarrow> int \<Rightarrow> int \<Rightarrow> int \<Rightarrow> mode \<Rightarrow> int \<Rightarrow> int \<Rightarrow> int32array"
  where
  "sortRow_loop luma th pixels width height row mode x xEnd =
     (if xEnd < width - 1 then
        (case scanRow luma th mode pixels width x row of
           (x1, xEnd1) \<Rightarrow>
             if x1 < 0 then pixels
             else sortRow_loop luma th
                    (sortRun (\<lambda>i. x1 + i + row * width) pixels (xEnd1 - x1))
                    width height row mode (xEnd1 + 1) xEnd1)
      else pixels)"
  by pat_completeness auto
termination
proof (relation "measure (\<lambda>(luma, th, pixels, width, height, row, mode, x, xEnd).
          if xEnd < width - 1 then 1 + nat (width - x) else 0)", goal_cases)
  case 1
  show ?case by simp
next
  case (2 luma th pixels width height row mode x xEnd x1 xEnd1)
  have "xEnd1 < width - 1 \<Longrightarrow> x \<le> xEnd1"
    using 2 line_progress [of False _ width x] by (simp add: scanRow_line Let_def)
  with 2 show ?case by auto
qed

definition sortRow ::
  "luma \<Rightarrow> thresholds \<Rightarrow> int32array \<Rightarrow> int \<Rightarrow> int \<Rightarrow> int \<Rightarrow> mode \<Rightarrow> int32array" where
  "sortRow luma th pixels width height row mode =
     sortRow_loop luma th pixels width height row mode 0 0"

function sortColumn_loop ::
  "luma \<Rightarrow> thresholds \<Rightarrow> int32array \<Rightarrow> int \<Rightarrow> int \<Rightarrow> int \<Rightarrow> mode \<Rightarrow> int \<Rightarrow> int \<Rightarrow> int32array"
  where
  "sortColumn_loop luma th pixels width height column mode y yEnd =
     (if yEnd < height - 1 then
        (case scanColumn luma th mode pixels width height column y of
           (y1, yEnd1) \<Rightarrow>
             if y1 < 0 then pixels
             else sortColumn_loop luma th
                    (sortRun (\<lambda>i. column + (y1 + i) * width) pixels (yEnd1 - y1))
                    width height column mode (yEnd1 + 1) yEnd1)
      else pixels)"
  by pat_completeness auto
termination
proof (relation "measure (\<lambda>(luma, th, pixels, width, height, column, mode, y, yEnd).
          if yEnd < height - 1 then 1 + nat (height - y) else 0)", goal_cases)
  case 1
  show ?case by simp
next
  case (2 luma th pixels width height column mode y yEnd y1 yEnd1)
  have "yEnd1 < height - 1 \<Longrightarrow> y \<le> yEnd1"
    using 2 line_progress [of True _ height y] by (simp add: scanColumn_line Let_def)
  with 2 show ?case by auto
qed

definition sortColumn ::
  "luma \<Rightarrow> thresholds \<Rightarrow> int32array \<Rightarrow> int \<Rightarrow> int \<Rightarrow> int \<Rightarrow> mode \<Rightarrow> int32array" where
  "sortColumn luma th pixels width height column mode =
     sortColumn_loop luma th pixels width height column mode 0 0"

declare sortRow_loop.simps [simp del] sortColumn_loop.simps [simp del]

section \<open>Packing, unpacking and the whole image\<close>

text \<open>
  \<^verbatim>\<open>(r << 16) | (g << 8) | b | 0xFF000000\<close> on three bytes read from the RGBA array; a read
  outside the array is \<^verbatim>\<open>undefined\<close>, which the bit operations take as 0.
\<close>

definition byteOrZero :: "8 word option \<Rightarrow> 32 word" where
  "byteOrZero v = (case v of None \<Rightarrow> 0 | Some b \<Rightarrow> ucast b)"

definition packRGB :: "32 word \<Rightarrow> 32 word \<Rightarrow> 32 word \<Rightarrow> 32 word" where
  "packRGB r g b = push_bit 16 r OR push_bit 8 g OR b OR 0xFF000000"

text \<open>
  What the platform raises: \<^verbatim>\<open>new Int32Array(n)\<close> is a \<^verbatim>\<open>RangeError\<close> when \<open>n\<close> is
  negative or above the length up to which the platform creates typed arrays; the two others
  are the exceptions of the \<^verbatim>\<open>ImageData\<close> constructor.
\<close>

datatype js_error = RangeError | InvalidStateError | IndexSizeError

text \<open>
  The length up to which \<^verbatim>\<open>new Int32Array(n)\<close> succeeds: ECMAScript refuses every \<open>n\<close>
  above \<open>2^53 - 1\<close>, and below that the platform has a limit of its own, which is the
  parameter \<open>maxLength\<close> of everything that allocates.
\<close>

definition lengthLimit :: "int \<Rightarrow> int" where
  "lengthLimit maxLength = min maxLength (2 ^ 53 - 1)"

text \<open>
  \<^verbatim>\<open>convertToRGB\<close> starts with \<^verbatim>\<open>new Int32Array(width * height)\<close>. The RGBA array
  \<open>pixels\<close> is held by the platform, and a platform that holds it creates a working buffer
  of no more bytes than \<open>pixels\<close> has, whatever \<open>maxLength\<close> is. So the allocation fails
  when \<open>width * height\<close> is negative, and when it is above the limit and, at four bytes an
  element, needs more bytes than \<open>pixels\<close> has.
\<close>

definition convertToRGB :: "int \<Rightarrow> u8array \<Rightarrow> int \<Rightarrow> int \<Rightarrow> js_error + int32array" where
  "convertToRGB maxLength pixels width height =
     (if width * height < 0 \<or>
         (lengthLimit maxLength < width * height \<and>
          int (length pixels) < width * height * 4)
      then Inl RangeError
      else Inr (map (\<lambda>i. let r = byteOrZero (getElem pixels (int i * 4));
                             g = byteOrZero (getElem pixels (int i * 4 + 1));
                             b = byteOrZero (getElem pixels (int i * 4 + 2))
                         in packRGB r g b)
                  [0..<nat (width * height)]))"

text \<open>
  \<^verbatim>\<open>convertToRGBA\<close>: a fresh array as long as the original, filled pixel by pixel from the
  packed colours, the alpha byte copied from the original. A write past the end of the
  array is ignored, as \<open>xs[i := v]\<close> is.
\<close>

definition convertToRGBA :: "int32array \<Rightarrow> u8array \<Rightarrow> u8array" where
  "convertToRGBA rgbPixels originalPixels =
     foldl (\<lambda>rgbaPixels i.
              let color = rgbPixels ! i
              in rgbaPixels
                   [i * 4 := ucast (signed_drop_bit 16 color AND 0xFF),
                    i * 4 + 1 := ucast (signed_drop_bit 8 color AND 0xFF),
                    i * 4 + 2 := ucast (color AND 0xFF),
                    i * 4 + 3 := (case getElem originalPixels (int i * 4 + 3) of
                                    None \<Rightarrow> 0 | Some a \<Rightarrow> a)])
       (replicate (length originalPixels) 0) [0..<length rgbPixels]"

text \<open>
  The canvas \<^verbatim>\<open>ImageData\<close> and its constructor \<^verbatim>\<open>new ImageData(data, sw, sh)\<close>, which
  belongs to the platform: the width and the height are converted to unsigned 32-bit
  integers; a data length that is zero or no multiple of 4 is an \<^verbatim>\<open>InvalidStateError\<close>; a
  pixel count that is no multiple of the width, or a height other than the quotient, is an
  \<^verbatim>\<open>IndexSizeError\<close>.
\<close>

record image_data =
  iwidth :: int
  iheight :: int
  idata :: u8array

definition new_ImageData :: "u8array \<Rightarrow> int \<Rightarrow> int \<Rightarrow> js_error + image_data" where
  "new_ImageData d sw sh =
     (let len = int (length d); w = sw mod 2 ^ 32; h = sh mod 2 ^ 32
      in if len = 0 \<or> len mod 4 \<noteq> 0 then Inl InvalidStateError
         else if w = 0 \<or> (len div 4) mod w \<noteq> 0 then Inl IndexSizeError
         else if h \<noteq> (len div 4) div w then Inl IndexSizeError
         else Inr \<lparr>iwidth = w, iheight = h, idata = d\<rparr>)"

text \<open>
  \<^verbatim>\<open>sortImage\<close>: a copy of the data (an array as long as the one given), the working
  buffer, the columns \<open>0, \<dots>, width - 2\<close>, then the rows \<open>0, \<dots>, height - 2\<close>, on the one
  working buffer. The progress callback does not touch the buffer; its calls are
  \<open>sortImage_progress\<close> below. The function is \<^verbatim>\<open>async\<close> and awaits nothing: it runs to
  its end when it is called, and what it throws is the rejection of the promise it returns;
  that is the \<open>Inl\<close> of the result here.
\<close>

definition sortedPixels ::
  "luma \<Rightarrow> thresholds \<Rightarrow> int32array \<Rightarrow> int \<Rightarrow> int \<Rightarrow> mode \<Rightarrow> int32array" where
  "sortedPixels luma th rgbPixels width height mode =
     (let afterColumns =
            foldl (\<lambda>pixels column. sortColumn luma th pixels width height column mode)
              rgbPixels [0..width - 2]
      in foldl (\<lambda>pixels row. sortRow luma th pixels width height row mode)
           afterColumns [0..height - 2])"

definition sortImage ::
  "int \<Rightarrow> luma \<Rightarrow> thresholds \<Rightarrow> image_data \<Rightarrow> mode \<Rightarrow> js_error + image_data" where
  "sortImage maxLength luma th imageData mode =
     (let width = iwidth imageData; height = iheight imageData; data = idata imageData;
          pixels = data
      in case convertToRGB maxLength pixels width height of
           Inl e \<Rightarrow> Inl e
         | Inr rgbPixels \<Rightarrow>
             let sortedData =
                   convertToRGBA (sortedPixels luma th rgbPixels width height mode) pixels
             in new_ImageData sortedData width height)"

text \<open>
  The calls of the progress callback, in order, as (percentage, label), from
  \<^verbatim>\<open>progressCallback(0, 'Sorting columns...')\<close> to \<^verbatim>\<open>progressCallback(100, 'Complete!')\<close>;
  the percentages \<^verbatim>\<open>(column / width) * 50\<close> and \<^verbatim>\<open>50 + (row / height) * 50\<close> are kept as
  the exact rationals of which the doubles are the roundings. When the allocation of the
  working buffer fails, no call is made.
\<close>

definition progressCalls :: "int \<Rightarrow> int \<Rightarrow> (rat \<times> string) list" where
  "progressCalls width height =
     [(0, ''Sorting columns...'')] @
     map (\<lambda>column. (of_int column / of_int width * 50, ''Sorting columns...''))
       (filter (\<lambda>column. column mod 10 = 0) [0..width - 2]) @
     [(50, ''Sorting rows...'')] @
     map (\<lambda>row. (50 + of_int row / of_int height * 50, ''Sorting rows...''))
       (filter (\<lambda>row. row mod 10 = 0) [0..height - 2]) @
     [(100, ''Complete!'')]"

definition sortImage_progress :: "int \<Rightarrow> image_data \<Rightarrow> (rat \<times> string) list" where
  "sortImage_progress maxLength imageData =
     (let width = iwidth imageData; height = iheight imageData
      in case convertToRGB maxLength (idata imageData) width height of
           Inl e \<Rightarrow> []
         | Inr rgbPixels \<Rightarrow> progressCalls width height)"

text \<open>
  A well-formed input: positive dimensions that an \<^verbatim>\<open>ImageData\<close> can have, and four bytes
  for each of the \<open>width * height\<close> pixels.
\<close>

definition wellFormed :: "image_data \<Rightarrow> bool" where
  "wellFormed imageData \<longleftrightarrow>
     1 \<le> iwidth imageData \<and> iwidth imageData < 2 ^ 32 \<and>
     1 \<le> iheight imageData \<and> iheight imageData < 2 ^ 32 \<and>
     int (length (idata imageData)) = iwidth imageData * iheight imageData * 4"

text \<open>
  The limit of the platform on which the examples are evaluated: typed arrays of up to
  \<open>2^32 - 1\<close> elements.
\<close>

definition exampleMaxLength :: int where
  "exampleMaxLength = 2 ^ 32 - 1"

section \<open>The runs of a pass and their pixels\<close>

text \<open>
  The runs that \<^verbatim>\<open>sortRow\<close> detects, in order, as pairs of start and end: the loop of
  \<open>sortRow_loop\<close> again, recording \<open>(x, xEnd)\<close> in each iteration that passes the test
  \<^verbatim>\<open>if (x < 0) break\<close>. Likewise for \<^verbatim>\<open>sortColumn\<close>, and for the two phases of
  \<^verbatim>\<open>sortImage\<close>.
\<close>

function sortRow_runs_loop ::
  "luma \<Rightarrow> thresholds \<Rightarrow> int32array \<Rightarrow> int \<Rightarrow> int \<Rightarrow> int \<Rightarrow> mode \<Rightarrow> int \<Rightarrow> int \<Rightarrow>
   (int \<times> int) list"
  where
  "sortRow_runs_loop luma th pixels width height row mode x xEnd =
     (if xEnd < width - 1 then
        (case scanRow luma th mode pixels width x row of
           (x1, xEnd1) \<Rightarrow>
             if x1 < 0 then []
             else (x1, xEnd1) #
                  sortRow_runs_loop luma th
                    (sortRun (\<lambda>i. x1 + i + row * width) pixels (xEnd1 - x1))
                    width height row mode (xEnd1 + 1) xEnd1)
      else [])"
  by pat_completeness auto
termination
proof (relation "measure (\<lambda>(luma, th, pixels, width, height, row, mode, x, xEnd).
          if xEnd < width - 1 then 1 + nat (width - x) else 0)", goal_cases)
  case 1
  show ?case by simp
next
  case (2 luma th pixels width height row mode x xEnd x1 xEnd1)
  have "xEnd1 < width - 1 \<Longrightarrow> x \<le> xEnd1"
    using 2 line_progress [of False _ width x] by (simp add: scanRow_line Let_def)
  with 2 show ?case by auto
qed

definition sortRow_runs ::
  "luma \<Rightarrow> thresholds \<Rightarrow> int32array \<Rightarrow> int \<Rightarrow> int \<Rightarrow> int \<Rightarrow> mode \<Rightarrow> (int \<times> int) list" where
  "sortRow_runs luma th pixels width height row mode =
     sortRow_runs_loop luma th pixels width height row mode 0 0"

function sortColumn_runs_loop ::
  "luma \<Rightarrow> thresholds \<Rightarrow> int32array \<Rightarrow> int \<Rightarrow> int \<Rightarrow> int \<Rightarrow> mode \<Rightarrow> int \<Rightarrow> int \<Rightarrow>
   (int \<times> int) list"
  where
  "sortColumn_runs_loop luma th pixels width height column mode y yEnd =
     (if yEnd < height - 1 then
        (case scanColumn luma th mode pixels width height column y of
           (y1, yEnd1) \<Rightarrow>
             if y1 < 0 then []
             else (y1, yEnd1) #
                  sortColumn_runs_loop luma th
                    (sortRun (\<lambda>i. column + (y1 + i) * width) pixels (yEnd1 - y1))
                    width height column mode (yEnd1 + 1) yEnd1)
      else [])"
  by pat_completeness auto
termination
proof (relation "measure (\<lambda>(luma, th, pixels, width, height, column, mode, y, yEnd).
          if yEnd < height - 1 then 1 + nat (height - y) else 0)", goal_cases)
  case 1
  show ?case by simp
next
  case (2 luma th pixels width height column mode y yEnd y1 yEnd1)
  have "yEnd1 < height - 1 \<Longrightarrow> y \<le> yEnd1"
    using 2 line_progress [of True _ height y] by (simp add: scanColumn_line Let_def)
  with 2 show ?case by auto
qed

definition sortColumn_runs ::
  "luma \<Rightarrow> thresholds \<Rightarrow> int32array \<Rightarrow> int \<Rightarrow> int \<Rightarrow> int \<Rightarrow> mode \<Rightarrow> (int \<times> int) list" where
  "sortColumn_runs luma th pixels width height column mode =
     sortColumn_runs_loop luma th pixels width height column mode 0 0"

declare sortRow_runs_loop.simps [simp del] sortColumn_runs_loop.simps [simp del]




definition pixelCount :: "(int \<Rightarrow> nat) \<Rightarrow> (int \<times> int) list \<Rightarrow> nat" where
  "pixelCount weight runs = sum_list (map (\<lambda>(s, e). weight (e - s)) runs)"

section \<open>What the scans return\<close>

lemma scanFirst_char:
  assumes "k < bound"
  shows "(scanFirst c bound k = - 1 \<and> (\<forall>j. k \<le> j \<and> j < bound \<longrightarrow> c j)) \<or>
         (k \<le> scanFirst c bound k \<and> scanFirst c bound k < bound \<and> \<not> c (scanFirst c bound k) \<and>
          (\<forall>j. k \<le> j \<and> j < scanFirst c bound k \<longrightarrow> c j))"
  using assms
proof (induction c bound k rule: scanFirst.induct)
  case (1 c bound k)
  show ?case
  proof (cases "c k")
    case False
    then have "scanFirst c bound k = k" by (subst scanFirst.simps) simp
    with False "1.prems" show ?thesis by auto
  next
    case ck: True
    show ?thesis
    proof (cases "bound \<le> k + 1")
      case True
      with ck have "scanFirst c bound k = - 1"
        by (subst scanFirst.simps) simp
      moreover have "\<forall>j. k \<le> j \<and> j < bound \<longrightarrow> c j"
        using ck True by (smt (verit))
      ultimately show ?thesis by blast
    next
      case False
      with ck have eq: "scanFirst c bound k = scanFirst c bound (k + 1)"
        by (subst scanFirst.simps) simp
      have low: "\<And>j. k \<le> j \<Longrightarrow> j < k + 1 \<Longrightarrow> c j"
        using ck by (smt (verit))
      from False ck "1.IH" have IH:
        "(scanFirst c bound (k + 1) = - 1 \<and> (\<forall>j. k + 1 \<le> j \<and> j < bound \<longrightarrow> c j)) \<or>
         (k + 1 \<le> scanFirst c bound (k + 1) \<and> scanFirst c bound (k + 1) < bound \<and>
          \<not> c (scanFirst c bound (k + 1)) \<and>
          (\<forall>j. k + 1 \<le> j \<and> j < scanFirst c bound (k + 1) \<longrightarrow> c j))"
        by simp
      show ?thesis
        unfolding eq using IH low by (smt (verit))
    qed
  qed
qed

lemma scanNext_char:
  assumes "k \<le> bound"
  shows "k - 1 \<le> scanNext c bound k \<and> scanNext c bound k \<le> bound - 1 \<and>
         (\<forall>j. k \<le> j \<and> j \<le> scanNext c bound k \<longrightarrow> c j) \<and>
         (scanNext c bound k = bound - 1 \<or> \<not> c (scanNext c bound k + 1))"
  using assms
proof (induction c bound k rule: scanNext.induct)
  case (1 c bound k)
  show ?case
  proof (cases "c k")
    case False
    then have "scanNext c bound k = k - 1" by (subst scanNext.simps) simp
    with False "1.prems" show ?thesis by auto
  next
    case ck: True
    show ?thesis
    proof (cases "bound \<le> k + 1")
      case True
      with ck have eq: "scanNext c bound k = bound - 1" by (subst scanNext.simps) simp
      have "\<And>j. k \<le> j \<Longrightarrow> j \<le> bound - 1 \<Longrightarrow> c j"
        using ck True by (smt (verit))
      with eq "1.prems" show ?thesis by simp
    next
      case False
      with ck have eq: "scanNext c bound k = scanNext c bound (k + 1)"
        by (subst scanNext.simps) simp
      have low: "\<And>j. k \<le> j \<Longrightarrow> j < k + 1 \<Longrightarrow> c j"
        using ck by (smt (verit))
      from False ck "1.IH" have IH:
        "k \<le> scanNext c bound (k + 1) \<and> scanNext c bound (k + 1) \<le> bound - 1 \<and>
         (\<forall>j. k + 1 \<le> j \<and> j \<le> scanNext c bound (k + 1) \<longrightarrow> c j) \<and>
         (scanNext c bound (k + 1) = bound - 1 \<or> \<not> c (scanNext c bound (k + 1) + 1))"
        by simp
      show ?thesis
        unfolding eq using IH low by (smt (verit))
    qed
  qed
qed

lemma index_in_range:
  assumes "0 \<le> (j::int)" "j < width" "0 \<le> (y::int)" "y < height"
  shows "0 \<le> j + y * width" "j + y * width < width * height"
proof -
  have w: "0 < width" using assms by linarith
  show "0 \<le> j + y * width" using assms w by simp
  have "y * width \<le> (height - 1) * width"
    using assms w by (intro mult_right_mono) auto
  then show "j + y * width < width * height"
    using assms by (simp add: algebra_simps)
qed

section \<open>Run detection in White mode\<close>

text \<open>
  The packed value at position \<open>(x, y)\<close> of a buffer that holds the position, and the
  two shapes the results of a scan have: the first index from \<open>k\<close> below \<open>bound\<close> where
  \<open>P\<close> holds (\<open>-1\<close> when there is none), and the last index of the longest stretch
  right after \<open>s\<close> on which \<open>Q\<close> holds throughout.
\<close>

definition packedAt :: "int32array \<Rightarrow> int \<Rightarrow> int \<Rightarrow> int \<Rightarrow> int" where
  "packedAt pixels width x y = sint (pixels ! nat (x + y * width))"

definition firstIndexFrom :: "(int \<Rightarrow> bool) \<Rightarrow> int \<Rightarrow> int \<Rightarrow> int \<Rightarrow> bool" where
  "firstIndexFrom P k bound s \<longleftrightarrow>
     (s = - 1 \<and> (\<forall>j\<in>{k..<bound}. \<not> P j)) \<or>
     (s \<in> {k..<bound} \<and> P s \<and> (\<forall>j\<in>{k..<s}. \<not> P j))"

definition lastOfStretch :: "(int \<Rightarrow> bool) \<Rightarrow> int \<Rightarrow> int \<Rightarrow> int \<Rightarrow> bool" where
  "lastOfStretch Q s bound e \<longleftrightarrow>
     e \<in> {s..<bound} \<and> (\<forall>j\<in>{s<..e}. Q j) \<and> (e + 1 < bound \<longrightarrow> \<not> Q (e + 1))"

text \<open>
  The run end in the words of the specification, for comparison with \<open>getNextWhiteX\<close>:
  the last consecutive index from the start whose packed value is at most \<open>whiteValue\<close>,
  the scan stopping at the first index where the packed value is greater.
\<close>

definition claimedWhiteRunEndX :: "thresholds \<Rightarrow> int32array \<Rightarrow> int \<Rightarrow> int \<Rightarrow> int \<Rightarrow> int" where
  "claimedWhiteRunEndX th pixels width x y =
     scanNext (\<lambda>x. case getElem pixels (x + y * width) of
                      None \<Rightarrow> False | Some w \<Rightarrow> sint w \<le> whiteValue th) width x"

lemma js_lt_in_range:
  "0 \<le> i \<Longrightarrow> i < int (length pixels) \<Longrightarrow> js_lt (getElem pixels i) t \<longleftrightarrow> sint (pixels ! nat i) < t"
  by (simp add: js_lt_def getElem_def)

lemma js_gt_in_range:
  "0 \<le> i \<Longrightarrow> i < int (length pixels) \<Longrightarrow> js_gt (getElem pixels i) t \<longleftrightarrow> t < sint (pixels ! nat i)"
  by (simp add: js_gt_def getElem_def)

lemma scanFirst_firstIndexFrom:
  assumes "k < bound" "\<And>j. k \<le> j \<Longrightarrow> j < bound \<Longrightarrow> c j \<longleftrightarrow> \<not> P j"
  shows "firstIndexFrom P k bound (scanFirst c bound k)"
  using scanFirst_char [OF assms(1), of c] assms(2)
  unfolding firstIndexFrom_def by (smt (verit) atLeastLessThan_iff)

lemma scanNext_lastOfStretch:
  assumes "s < bound" "\<And>j. s < j \<Longrightarrow> j < bound \<Longrightarrow> c j \<longleftrightarrow> Q j"
  shows "lastOfStretch Q s bound (scanNext c bound (s + 1))"
proof -
  have "s + 1 \<le> bound" using assms(1) by simp
  from scanNext_char [OF this, of c] assms(2) show ?thesis
    unfolding lastOfStretch_def by (smt (verit) atLeastLessThan_iff greaterThanAtMost_iff)
qed

text \<open>
  Claim C1, as the code has it. On a buffer of \<open>width * height\<close> packed values and from a
  scan position inside the scanline, \<open>getFirstNoneWhiteX\<close> and \<open>getFirstNoneWhiteY\<close>
  return the first index from the scan position whose packed value is at least
  \<open>whiteValue\<close>, or \<open>-1\<close> when the scanline has none; \<open>getNextWhiteX\<close> and
  \<open>getNextWhiteY\<close> return the last index of the longest stretch right after the start whose
  packed values are all greater than \<open>whiteValue\<close>: the start itself is not tested, and
  the scan stops at, and excludes, the first later index whose packed value is at most
  \<open>whiteValue\<close>, or it reaches the end of the scanline.
\<close>

theorem white_run_detection:
  assumes "0 \<le> x" "x < width" "0 \<le> y" "y < height" "length pixels = nat (width * height)"
  shows "firstIndexFrom (\<lambda>j. whiteValue th \<le> packedAt pixels width j y) x width
           (getFirstNoneWhiteX th pixels width x y) \<and>
         lastOfStretch (\<lambda>j. whiteValue th < packedAt pixels width j y) x width
           (getNextWhiteX th pixels width x y) \<and>
         firstIndexFrom (\<lambda>j. whiteValue th \<le> packedAt pixels width x j) y height
           (getFirstNoneWhiteY th pixels width height x y) \<and>
         lastOfStretch (\<lambda>j. whiteValue th < packedAt pixels width x j) y height
           (getNextWhiteY th pixels width height x y)"
proof -
  have len: "int (length pixels) = width * height"
    using assms index_in_range [of x width y height] by simp
  have rowr: "\<And>j. 0 \<le> j \<Longrightarrow> j < width \<Longrightarrow> 0 \<le> j + y * width \<and> j + y * width < int (length pixels)"
    using index_in_range [of _ width y height] assms len by simp
  have colr: "\<And>j. 0 \<le> j \<Longrightarrow> j < height \<Longrightarrow> 0 \<le> x + j * width \<and> x + j * width < int (length pixels)"
    using index_in_range [of x width _ height] assms len by simp
  have 1: "firstIndexFrom (\<lambda>j. whiteValue th \<le> packedAt pixels width j y) x width
           (getFirstNoneWhiteX th pixels width x y)"
    unfolding getFirstNoneWhiteX_def
    by (rule scanFirst_firstIndexFrom) (use assms rowr in \<open>auto simp: js_lt_in_range packedAt_def\<close>)
  have 2: "lastOfStretch (\<lambda>j. whiteValue th < packedAt pixels width j y) x width
           (getNextWhiteX th pixels width x y)"
    unfolding getNextWhiteX_def
    by (rule scanNext_lastOfStretch) (use assms rowr in \<open>auto simp: js_gt_in_range packedAt_def\<close>)
  have 3: "firstIndexFrom (\<lambda>j. whiteValue th \<le> packedAt pixels width x j) y height
           (getFirstNoneWhiteY th pixels width height x y)"
    unfolding getFirstNoneWhiteY_def using assms(4)
    by (simp, intro scanFirst_firstIndexFrom)
      (use assms colr in \<open>auto simp: js_lt_in_range packedAt_def\<close>)
  have 4: "lastOfStretch (\<lambda>j. whiteValue th < packedAt pixels width x j) y height
           (getNextWhiteY th pixels width height x y)"
  proof (cases "y + 1 < height")
    case True
    then show ?thesis
      unfolding getNextWhiteY_def
      by (simp, intro scanNext_lastOfStretch)
        (use assms colr in \<open>auto simp: js_gt_in_range packedAt_def\<close>)
  next
    case False
    then show ?thesis
      using assms by (simp add: getNextWhiteY_def lastOfStretch_def)
  qed
  from 1 2 3 4 show ?thesis by blast
qed

theorem white_run_detection_witness:
  "(0::int) \<le> 0 \<and> (0::int) < 3 \<and> (0::int) < 2 \<and>
   length [- 16777216, - 1, - 1, - 16777216, - 1, - 1 :: 32 word] = nat (3 * 2) \<and>
   firstIndexFrom
     (\<lambda>j. whiteValue PixelSorter \<le> packedAt [- 16777216, - 1, - 1, - 16777216, - 1, - 1] 3 j 0) 0 3
     (getFirstNoneWhiteX PixelSorter [- 16777216, - 1, - 1, - 16777216, - 1, - 1] 3 0 0) \<and>
   lastOfStretch
     (\<lambda>j. whiteValue PixelSorter < packedAt [- 16777216, - 1, - 1, - 16777216, - 1, - 1] 3 j 0) 0 3
     (getNextWhiteX PixelSorter [- 16777216, - 1, - 1, - 16777216, - 1, - 1] 3 0 0) \<and>
   firstIndexFrom
     (\<lambda>j. whiteValue PixelSorter \<le> packedAt [- 16777216, - 1, - 1, - 16777216, - 1, - 1] 3 0 j) 0 2
     (getFirstNoneWhiteY PixelSorter [- 16777216, - 1, - 1, - 16777216, - 1, - 1] 3 2 0 0) \<and>
   lastOfStretch
     (\<lambda>j. whiteValue PixelSorter < packedAt [- 16777216, - 1, - 1, - 16777216, - 1, - 1] 3 0 j) 0 2
     (getNextWhiteY PixelSorter [- 16777216, - 1, - 1, - 16777216, - 1, - 1] 3 2 0 0) \<and>
   getFirstNoneWhiteX PixelSorter [- 16777216, - 1, - 1, - 16777216, - 1, - 1] 3 0 0 = 1 \<and>
   getNextWhiteX PixelSorter [- 16777216, - 1, - 1, - 16777216, - 1, - 1] 3 1 0 = 2"
  using white_run_detection [of 0 3 0 2 "[- 16777216, - 1, - 1, - 16777216, - 1, - 1]" PixelSorter]
  by (simp add: getFirstNoneWhiteX_def getNextWhiteX_def PixelSorter_def scanNext.simps
      scanFirst.simps getElem_def js_gt_def js_lt_def)

text \<open>
  Claim C1 as the specification words it fails: on a row of three pixels that all equal
  \<open>whiteValue\<close> the run that starts at index 0 ends at index 0, where the specification's
  rule (extend while the packed value is at most \<open>whiteValue\<close>) ends it at index 2.
\<close>

theorem white_run_end_counterexample:
  "getNextWhiteX PixelSorter [- 12345678, - 12345678, - 12345678] 3 0 0 = 0 \<and>
   claimedWhiteRunEndX PixelSorter [- 12345678, - 12345678, - 12345678] 3 0 0 = 2"
  by (simp add: getNextWhiteX_def claimedWhiteRunEndX_def PixelSorter_def scanNext.simps
      getElem_def js_gt_def)

section \<open>The sort of one run\<close>

lemma length_setElem [simp]: "length (setElem xs i v) = length xs"
  by (simp add: setElem_def)

lemma getElem_setElem_other: "i \<noteq> j \<Longrightarrow> getElem (setElem xs i v) j = getElem xs j"
  by (auto simp: setElem_def getElem_def)

lemma getElem_setElem_same:
  "0 \<le> i \<Longrightarrow> i < int (length xs) \<Longrightarrow>
   getElem (setElem xs i v) i = Some (case v of None \<Rightarrow> 0 | Some w \<Rightarrow> w)"
  by (simp add: setElem_def getElem_def)

lemma length_writeBack [simp]:
  "length (foldl (\<lambda>p i. setElem p (idx (int i)) (f i)) pixels ns) = length pixels"
  by (induction ns rule: rev_induct) simp_all

lemma writeBack_other:
  "\<forall>i\<in>set ns. idx (int i) \<noteq> j \<Longrightarrow>
   getElem (foldl (\<lambda>p i. setElem p (idx (int i)) (f i)) pixels ns) j = getElem pixels j"
  by (induction ns rule: rev_induct) (simp_all add: getElem_setElem_other)

lemma writeBack_written:
  assumes "n \<in> set ns" "inj_on (\<lambda>i. idx (int i)) (set ns)"
    "0 \<le> idx (int n)" "idx (int n) < int (length pixels)"
  shows "getElem (foldl (\<lambda>p i. setElem p (idx (int i)) (f i)) pixels ns) (idx (int n)) =
         Some (case f n of None \<Rightarrow> 0 | Some w \<Rightarrow> w)"
  using assms
proof (induction ns rule: rev_induct)
  case Nil
  then show ?case by simp
next
  case (snoc m ns)
  show ?case
  proof (cases "m = n")
    case True
    with snoc.prems show ?thesis by (simp add: getElem_setElem_same)
  next
    case False
    with snoc.prems have "n \<in> set ns" "idx (int m) \<noteq> idx (int n)" 
      by (auto simp: inj_on_def)
    moreover have "inj_on (\<lambda>i. idx (int i)) (set ns)"
      using snoc.prems(2) by (auto simp: inj_on_def)
    ultimately show ?thesis
      using snoc.IH snoc.prems by (simp add: getElem_setElem_other)
  qed
qed

lemma js_sort_defined: "js_sort (map Some vs) = map Some (sort_key sint vs)"
proof -
  have "List.map_filter id (map Some vs) = vs"
    by (induction vs) (simp_all add: List.map_filter_simps)
  moreover have "filter (\<lambda>v. v = None) (map Some vs) = []"
    by (induction vs) simp_all
  ultimately show ?thesis by (simp add: js_sort_def)
qed

lemma length_sortRun [simp]: "length (sortRun idx pixels len) = length pixels"
  by (simp add: sortRun_def Let_def)

lemma sortRun_short: "len \<le> 1 \<Longrightarrow> sortRun idx pixels len = pixels"
  by (simp add: sortRun_def)

lemma sortRun_other:
  assumes "\<And>i. 0 \<le> i \<Longrightarrow> i < len \<Longrightarrow> idx i \<noteq> j"
  shows "getElem (sortRun idx pixels len) j = getElem pixels j"
proof -
  have "\<forall>i\<in>set [0..<nat len]. idx (int i) \<noteq> j"
    using assms by auto
  then show ?thesis
    by (simp add: sortRun_def Let_def writeBack_other)
qed

text \<open>The elements of the run, in order.\<close>

definition runElems :: "(int \<Rightarrow> int) \<Rightarrow> int32array \<Rightarrow> int \<Rightarrow> 32 word list" where
  "runElems idx pixels len = map (\<lambda>i. pixels ! nat (idx (int i))) [0..<nat len]"

lemma sortRun_sorted:
  assumes len: "1 < len"
    and range: "\<And>i. 0 \<le> i \<Longrightarrow> i < len \<Longrightarrow> 0 \<le> idx i \<and> idx i < int (length pixels)"
    and inj: "inj_on idx {0..<len}"
  shows "runElems idx (sortRun idx pixels len) len = sort_key sint (runElems idx pixels len)"
proof -
  let ?ns = "[0..<nat len]"
  let ?vals = "runElems idx pixels len"
  have unsorted: "map (\<lambda>i. getElem pixels (idx (int i))) ?ns = map Some ?vals"
    using range by (auto simp: runElems_def getElem_def)
  have run: "sortRun idx pixels len =
      foldl (\<lambda>p i. setElem p (idx (int i)) (map Some (sort_key sint ?vals) ! i)) pixels ?ns"
    using len by (simp add: sortRun_def Let_def unsorted js_sort_defined)
  have inj': "inj_on (\<lambda>i. idx (int i)) (set ?ns)"
  proof (rule inj_onI)
    fix a b assume "a \<in> set ?ns" "b \<in> set ?ns" and eq: "idx (int a) = idx (int b)"
    then have "int a \<in> {0..<len}" "int b \<in> {0..<len}" by auto
    with inj eq have "int a = int b" by (rule inj_onD)
    then show "a = b" by simp
  qed
  have "sortRun idx pixels len ! nat (idx (int n)) = sort_key sint ?vals ! n"
    if "n < nat len" for n
  proof -
    have r: "0 \<le> idx (int n)" "idx (int n) < int (length pixels)"
      using range [of "int n"] that by auto
    have "getElem (sortRun idx pixels len) (idx (int n)) =
          Some (case map Some (sort_key sint ?vals) ! n of None \<Rightarrow> 0 | Some w \<Rightarrow> w)"
      unfolding run using that inj' r by (intro writeBack_written) auto
    moreover have "n < length (sort_key sint ?vals)"
      using that by (simp add: runElems_def)
    ultimately show ?thesis
      using r by (simp add: getElem_def)
  qed
  then show ?thesis
    by (intro nth_equalityI) (simp_all add: runElems_def)
qed

lemma mset_eq_if_permuted_on:
  assumes len: "length ys = length xs"
    and js: "distinct js" "\<forall>j\<in>set js. j < length xs"
    and perm: "mset (map ((!) ys) js) = mset (map ((!) xs) js)"
    and same: "\<And>j. j < length xs \<Longrightarrow> j \<notin> set js \<Longrightarrow> ys ! j = xs ! j"
  shows "mset ys = mset xs"
proof -
  let ?n = "length xs"
  let ?R = "{0..<?n} - set js"
  have split: "mset_set {0..<?n} = mset js + mset_set ?R"
  proof -
    have "{0..<?n} = set js \<union> ?R" using js(2) by auto
    then have "mset_set {0..<?n} = mset_set (set js \<union> ?R)" by simp
    also have "\<dots> = mset_set (set js) + mset_set ?R"
      by (intro mset_set_Union) auto
    finally show ?thesis using js(1) by (simp add: mset_set_set)
  qed
  have whole: "mset zs = image_mset ((!) zs) (mset_set {0..<?n})" if "length zs = ?n" for zs :: "'a list"
  proof -
    have "mset zs = mset (map ((!) zs) [0..<length zs])" by (simp add: map_nth)
    then show ?thesis using that by simp
  qed
  have "image_mset ((!) ys) (mset_set ?R) = image_mset ((!) xs) (mset_set ?R)"
    by (intro image_mset_cong) (use same in auto)
  then have "image_mset ((!) ys) (mset_set {0..<?n}) = image_mset ((!) xs) (mset_set {0..<?n})"
    using perm by (simp add: split)
  then show ?thesis using whole [of ys] whole [of xs] len by simp
qed

lemma sortRun_mset:
  assumes range: "\<And>i. 0 \<le> i \<Longrightarrow> i < len \<Longrightarrow> 0 \<le> idx i \<and> idx i < int (length pixels)"
    and inj: "inj_on idx {0..<len}"
  shows "mset (sortRun idx pixels len) = mset pixels"
proof (cases "1 < len")
  case False
  then show ?thesis by (simp add: sortRun_short)
next
  case True
  let ?js = "map (\<lambda>i. nat (idx (int i))) [0..<nat len]"
  have m: "map ((!) p) ?js = runElems idx p len" for p
    by (simp add: runElems_def comp_def)
  show ?thesis
  proof (rule mset_eq_if_permuted_on [where js = ?js])
    show "length (sortRun idx pixels len) = length pixels" by simp
    show "distinct ?js"
    proof -
      have "inj_on (\<lambda>i. nat (idx (int i))) (set [0..<nat len])"
      proof (rule inj_onI)
        fix a b assume ab: "a \<in> set [0..<nat len]" "b \<in> set [0..<nat len]"
          and eq: "nat (idx (int a)) = nat (idx (int b))"
        from ab have in_run: "int a \<in> {0..<len}" "int b \<in> {0..<len}" by auto
        then have "0 \<le> idx (int a)" "0 \<le> idx (int b)"
          using range [of "int a"] range [of "int b"] by auto
        with eq have "idx (int a) = idx (int b)" by simp
        from inj this in_run have "int a = int b" by (rule inj_onD)
        then show "a = b" by simp
      qed
      then show ?thesis by (simp add: distinct_map)
    qed
    show "\<forall>j\<in>set ?js. j < length pixels"
    proof
      fix j assume "j \<in> set ?js"
      then obtain i where i: "i < nat len" "j = nat (idx (int i))" by auto
      then have "int i < len" by (simp add: zless_nat_eq_int_zless)
      with range [of "int i"] i show "j < length pixels" by (auto simp: nat_less_iff)
    qed
    show "mset (map ((!) (sortRun idx pixels len)) ?js) = mset (map ((!) pixels) ?js)"
      unfolding m using sortRun_sorted [OF True range inj] by simp
    show "sortRun idx pixels len ! j = pixels ! j" if "j < length pixels" "j \<notin> set ?js" for j
    proof -
      have "idx i \<noteq> int j" if "0 \<le> i" "i < len" for i
      proof
        assume "idx i = int j"
        then have "j = nat (idx (int (nat i)))" using that by simp
        moreover have "nat i \<in> set [0..<nat len]" using that by simp
        ultimately have "j \<in> set ?js" by (metis (no_types, lifting) image_eqI set_map)
        with \<open>j \<notin> set ?js\<close> show False by simp
      qed
      then have "getElem (sortRun idx pixels len) (int j) = getElem pixels (int j)"
        by (intro sortRun_other) auto
      then show ?thesis using that by (simp add: getElem_def)
    qed
  qed
qed

section \<open>Detected runs and their sort\<close>

lemma lineFirst_bounds:
  assumes "k < bound"
  shows "lineFirst g c bound k = - 1 \<or> (k \<le> lineFirst g c bound k \<and> lineFirst g c bound k < bound)"
  using scanFirst_char [OF assms, of c] assms by (auto simp: lineFirst_def)

lemma lineNext_bounds:
  assumes "k < bound"
  shows "k \<le> lineNext g c bound k \<and> lineNext g c bound k \<le> bound - 1"
proof -
  have "k + 1 \<le> bound" using assms by simp
  from scanNext_char [OF this, of c] assms show ?thesis
    by (auto simp: lineNext_def)
qed

lemma scanRow_bounds:
  assumes "scanRow luma th mode pixels width x row = (x1, xEnd1)" "0 \<le> x" "x < width" "0 \<le> x1"
  shows "x \<le> x1 \<and> x1 \<le> xEnd1 \<and> xEnd1 \<le> width - 1"
proof -
  let ?cf = "\<lambda>k. startTest luma th mode (getElem pixels (k + row * width))"
  let ?cn = "\<lambda>k. nextTest luma th mode (getElem pixels (k + row * width))"
  have x1: "x1 = lineFirst False ?cf width x" and xe: "xEnd1 = lineNext False ?cn width x1"
    using assms(1) by (auto simp: scanRow_line Let_def)
  from lineFirst_bounds [OF assms(3), of False ?cf] assms(2,4) x1
  have a: "x \<le> x1" "x1 < width" by auto
  from lineNext_bounds [OF a(2), of False ?cn] xe a show ?thesis by simp
qed

lemma scanColumn_bounds:
  assumes "scanColumn luma th mode pixels width height column y = (y1, yEnd1)"
    "0 \<le> y" "y < height" "0 \<le> y1"
  shows "y \<le> y1 \<and> y1 \<le> yEnd1 \<and> yEnd1 \<le> height - 1"
proof -
  let ?cf = "\<lambda>k. startTest luma th mode (getElem pixels (column + k * width))"
  let ?cn = "\<lambda>k. nextTest luma th mode (getElem pixels (column + k * width))"
  have y1: "y1 = lineFirst True ?cf height y" and ye: "yEnd1 = lineNext True ?cn height y1"
    using assms(1) by (auto simp: scanColumn_line Let_def)
  from lineFirst_bounds [OF assms(3), of True ?cf] assms(2,4) y1
  have a: "y \<le> y1" "y1 < height" by auto
  from lineNext_bounds [OF a(2), of True ?cn] ye a show ?thesis by simp
qed

text \<open>Index maps of a row and of a column, on a buffer of \<open>width * height\<close> elements.\<close>

lemma row_index:
  assumes "0 \<le> a" "a + len \<le> width" "0 \<le> row" "row < height"
    "int (length pixels) = width * height"
  shows "\<And>i. 0 \<le> i \<Longrightarrow> i < len \<Longrightarrow>
           0 \<le> a + i + row * width \<and> a + i + row * width < int (length pixels)"
    and "inj_on (\<lambda>i. a + i + row * width) {0..<len}"
proof -
  fix i :: int assume "0 \<le> i" "i < len"
  then show "0 \<le> a + i + row * width \<and> a + i + row * width < int (length pixels)"
    using index_in_range [of "a + i" width row height] assms by simp
next
  show "inj_on (\<lambda>i. a + i + row * width) {0..<len}"
    by (simp add: inj_on_def)
qed

lemma column_index:
  assumes "0 \<le> a" "a + len \<le> height" "0 \<le> column" "column < width"
    "int (length pixels) = width * height"
  shows "\<And>i. 0 \<le> i \<Longrightarrow> i < len \<Longrightarrow>
           0 \<le> column + (a + i) * width \<and> column + (a + i) * width < int (length pixels)"
    and "inj_on (\<lambda>i. column + (a + i) * width) {0..<len}"
proof -
  fix i :: int assume "0 \<le> i" "i < len"
  then show "0 \<le> column + (a + i) * width \<and> column + (a + i) * width < int (length pixels)"
    using index_in_range [of column width "a + i" height] assms by simp
next
  have "0 < width" using assms by linarith
  then show "inj_on (\<lambda>i. column + (a + i) * width) {0..<len}"
    by (simp add: inj_on_def)
qed

text \<open>
  The runs that a pass detects lie one after another along the scanline: each starts at or
  after the scan position, ends at or after its start and inside the scanline, and the scan
  for the next starts right after its end.
\<close>

fun runsFrom :: "int \<Rightarrow> int \<Rightarrow> (int \<times> int) list \<Rightarrow> bool" where
  "runsFrom x bound [] \<longleftrightarrow> True"
| "runsFrom x bound ((s, e) # runs) \<longleftrightarrow> x \<le> s \<and> s \<le> e \<and> e < bound \<and> runsFrom (e + 1) bound runs"

text \<open>
  Positions of the buffer, \<open>f k\<close> being the buffer index of position \<open>k\<close> of the
  scanline: the ones that the sorts of a pass gather and write, from the start to the one
  before the end of each run with \<open>e - s > 1\<close>; and the ones of all the runs, from start to
  end.
\<close>

definition gatheredAt :: "(int \<Rightarrow> int) \<Rightarrow> (int \<times> int) list \<Rightarrow> int set" where
  "gatheredAt f runs = (\<Union>(s, e)\<in>set runs. if 1 < e - s then f ` {s..<e} else {})"

definition runsAt :: "(int \<Rightarrow> int) \<Rightarrow> (int \<times> int) list \<Rightarrow> int set" where
  "runsAt f runs = (\<Union>(s, e)\<in>set runs. f ` {s..e})"

text \<open>
  What a pass does to a run and to the buffer. \<open>sortedExceptEnd\<close>: when \<open>e - s\<close> exceeds
  1 the positions \<open>s, \<dots>, e - 1\<close> hold afterwards the ascending sort, by signed value, of
  what they held before; when it does not, the start holds what it held; the end \<open>e\<close> holds
  what it held in either case. \<open>writtenOnly\<close>: the buffer keeps its length, and every
  element outside the given positions is as before.
\<close>

definition sortedExceptEnd ::
  "(int \<Rightarrow> int) \<Rightarrow> int \<Rightarrow> int \<Rightarrow> int32array \<Rightarrow> int32array \<Rightarrow> bool" where
  "sortedExceptEnd f s e before after \<longleftrightarrow>
     (1 < e - s \<longrightarrow>
        map (\<lambda>k. after ! nat (f k)) [s..e - 1] =
        sort_key sint (map (\<lambda>k. before ! nat (f k)) [s..e - 1])) \<and>
     (e - s \<le> 1 \<longrightarrow> after ! nat (f s) = before ! nat (f s)) \<and>
     after ! nat (f e) = before ! nat (f e)"

definition writtenOnly :: "int set \<Rightarrow> int32array \<Rightarrow> int32array \<Rightarrow> bool" where
  "writtenOnly positions before after \<longleftrightarrow>
     length after = length before \<and>
     (\<forall>j<length before. int j \<notin> positions \<longrightarrow> after ! j = before ! j)"

lemma sortRun_unchanged:
  assumes "j < length pixels" "\<And>i. 0 \<le> i \<Longrightarrow> i < len \<Longrightarrow> idx i \<noteq> int j"
  shows "sortRun idx pixels len ! j = pixels ! j"
proof -
  have "getElem (sortRun idx pixels len) (int j) = getElem pixels (int j)"
    using assms(2) by (intro sortRun_other) auto
  then show ?thesis using assms(1) by (simp add: getElem_def)
qed

lemma runsFrom_mem:
  "runsFrom x bound runs \<Longrightarrow> (s, e) \<in> set runs \<Longrightarrow> x \<le> s \<and> s \<le> e \<and> e < bound"
proof (induction runs arbitrary: x)
  case Nil
  then show ?case by simp
next
  case (Cons r runs)
  obtain s1 e1 where r: "r = (s1, e1)" by force
  show ?case
  proof (cases "(s, e) = (s1, e1)")
    case True
    with Cons.prems r show ?thesis by simp
  next
    case False
    with Cons.prems r have "runsFrom (e1 + 1) bound runs" "(s, e) \<in> set runs" "x \<le> s1" "s1 \<le> e1"
      by auto
    with Cons.IH [of "e1 + 1"] show ?thesis by simp
  qed
qed

lemma runsFrom_disjoint:
  "runsFrom x bound runs \<Longrightarrow> (s, e) \<in> set runs \<Longrightarrow> (s', e') \<in> set runs \<Longrightarrow>
   s \<le> k \<Longrightarrow> k \<le> e \<Longrightarrow> s' \<le> k \<Longrightarrow> k \<le> e' \<Longrightarrow> (s', e') = (s, e)"
proof (induction runs arbitrary: x)
  case Nil
  then show ?case by simp
next
  case (Cons r runs)
  obtain s1 e1 where r: "r = (s1, e1)" by force
  from Cons.prems(1) r have tl: "runsFrom (e1 + 1) bound runs" by simp
  show ?case
  proof (cases "(s, e) \<in> set runs")
    case a: True
    show ?thesis
    proof (cases "(s', e') \<in> set runs")
      case True
      with a tl Cons.IH [of "e1 + 1"] Cons.prems show ?thesis by simp
    next
      case False
      with Cons.prems r have "(s', e') = (s1, e1)" by simp
      with runsFrom_mem [OF tl a] Cons.prems show ?thesis by simp
    qed
  next
    case a: False
    with Cons.prems r have se: "(s, e) = (s1, e1)" by simp
    show ?thesis
    proof (cases "(s', e') \<in> set runs")
      case True
      with runsFrom_mem [OF tl True] se Cons.prems show ?thesis by simp
    next
      case False
      with Cons.prems r se show ?thesis by simp
    qed
  qed
qed

lemma gatheredAt_Cons:
  "gatheredAt f ((s, e) # runs) = (if 1 < e - s then f ` {s..<e} else {}) \<union> gatheredAt f runs"
  by (simp add: gatheredAt_def)

lemma gatheredAt_from:
  assumes "runsFrom x bound runs" "j \<in> gatheredAt f runs"
  shows "\<exists>k. x \<le> k \<and> k < bound \<and> j = f k"
proof -
  from assms(2) obtain s e k where m: "(s, e) \<in> set runs" "s \<le> k" "k < e" "j = f k"
    unfolding gatheredAt_def by (auto split: if_splits)
  with runsFrom_mem [OF assms(1) m(1)] show ?thesis
    by (intro exI [of _ k]) simp
qed

lemma gatheredAt_subset: "gatheredAt f runs \<subseteq> runsAt f runs"
proof
  fix j assume "j \<in> gatheredAt f runs"
  then obtain s e k where m: "(s, e) \<in> set runs" "s \<le> k" "k < e" "j = f k"
    unfolding gatheredAt_def by (auto split: if_splits)
  then have "j \<in> f ` {s..e}" by simp
  with m(1) show "j \<in> runsAt f runs"
    unfolding runsAt_def by blast
qed

lemma gatheredAt_iff:
  assumes "runsFrom x bound runs" "0 \<le> x" "inj_on f {0..<bound}" "(s, e) \<in> set runs"
    "s \<le> k" "k \<le> e"
  shows "f k \<in> gatheredAt f runs \<longleftrightarrow> 1 < e - s \<and> k < e"
proof
  assume "1 < e - s \<and> k < e"
  with assms(4,5) show "f k \<in> gatheredAt f runs"
    unfolding gatheredAt_def by force
next
  assume "f k \<in> gatheredAt f runs"
  then obtain s' e' k' where m: "(s', e') \<in> set runs" "1 < e' - s'" "s' \<le> k'" "k' < e'"
      "f k = f k'"
    unfolding gatheredAt_def by (auto split: if_splits)
  from runsFrom_mem [OF assms(1) m(1)] runsFrom_mem [OF assms(1,4)] assms(2,5,6) m(3,4)
  have "k \<in> {0..<bound}" "k' \<in> {0..<bound}" by auto
  with assms(3) m(5) have "k = k'" by (metis inj_onD)
  with runsFrom_disjoint [OF assms(1,4) m(1) assms(5,6)] m(3,4) have "(s', e') = (s, e)"
    by simp
  with m \<open>k = k'\<close> show "1 < e - s \<and> k < e" by simp
qed

lemma runElems_cong:
  "(\<And>i. 0 \<le> i \<Longrightarrow> i < len \<Longrightarrow> q ! nat (idx i) = p ! nat (idx i)) \<Longrightarrow>
   runElems idx q len = runElems idx p len"
  by (simp add: runElems_def)

lemma runElems_upto:
  "runElems (\<lambda>i. f (s + i)) p (e - s) = map (\<lambda>k. p ! nat (f k)) [s..e - 1]"
  by (rule nth_equalityI) (simp_all add: runElems_def)

lemma foldl_sortRun_runs:
  fixes f :: "int \<Rightarrow> int"
  assumes "runsFrom x bound runs" "0 \<le> x"
    and "\<And>k. 0 \<le> k \<Longrightarrow> k < bound \<Longrightarrow> 0 \<le> f k \<and> f k < int (length p)"
    and "inj_on f {0..<bound}"
  shows "length (foldl (\<lambda>p (s, e). sortRun (\<lambda>i. f (s + i)) p (e - s)) p runs) = length p \<and>
     (\<forall>j<length p. int j \<notin> gatheredAt f runs \<longrightarrow>
        foldl (\<lambda>p (s, e). sortRun (\<lambda>i. f (s + i)) p (e - s)) p runs ! j = p ! j) \<and>
     (\<forall>(s, e)\<in>set runs. 1 < e - s \<longrightarrow>
        runElems (\<lambda>i. f (s + i))
          (foldl (\<lambda>p (s, e). sortRun (\<lambda>i. f (s + i)) p (e - s)) p runs) (e - s) =
        sort_key sint (runElems (\<lambda>i. f (s + i)) p (e - s)))"
  using assms
proof (induction runs arbitrary: x p)
  case Nil
  then show ?case by simp
next
  case (Cons r runs)
  obtain s1 e1 where r: "r = (s1, e1)" by force
  let ?F = "\<lambda>p (s, e). sortRun (\<lambda>i. f (s + i)) p (e - s)"
  let ?p1 = "sortRun (\<lambda>i. f (s1 + i)) p (e1 - s1)"
  let ?q = "foldl ?F ?p1 runs"
  have q: "foldl ?F p (r # runs) = ?q" by (simp add: r)
  from Cons.prems(1) r have b: "x \<le> s1" "s1 \<le> e1" "e1 < bound"
    and tl: "runsFrom (e1 + 1) bound runs" by simp_all
  have range: "0 \<le> f k \<and> f k < int (length p)" if "0 \<le> k" "k < bound" for k
    using Cons.prems(3) that by blast
  have pos: "nat (f k) < length p" if "0 \<le> k" "k < bound" for k
    using range [OF that] by (auto simp: nat_less_iff)
  have inj: "inj_on f {0..<bound}" by (rule Cons.prems(4))
  have IH: "length ?q = length ?p1 \<and>
     (\<forall>j<length ?p1. int j \<notin> gatheredAt f runs \<longrightarrow> ?q ! j = ?p1 ! j) \<and>
     (\<forall>(s, e)\<in>set runs. 1 < e - s \<longrightarrow>
        runElems (\<lambda>i. f (s + i)) ?q (e - s) = sort_key sint (runElems (\<lambda>i. f (s + i)) ?p1 (e - s)))"
  proof (rule Cons.IH [OF tl])
    show "0 \<le> e1 + 1" using b Cons.prems(2) by simp
    show "0 \<le> f k \<and> f k < int (length ?p1)" if "0 \<le> k" "k < bound" for k
      using range [OF that] by simp
    show "inj_on f {0..<bound}" by (rule inj)
  qed
  have first: "?p1 ! j = p ! j"
    if "j < length p" "int j \<notin> (if 1 < e1 - s1 then f ` {s1..<e1} else {})" for j
  proof (cases "1 < e1 - s1")
    case False
    then show ?thesis by (simp add: sortRun_short)
  next
    case True
    show ?thesis
    proof (rule sortRun_unchanged [OF that(1)])
      fix i :: int assume "0 \<le> i" "i < e1 - s1"
      then have "s1 + i \<in> {s1..<e1}" by simp
      then have "f (s1 + i) \<in> f ` {s1..<e1}" by (rule imageI)
      with that(2) True show "f (s1 + i) \<noteq> int j" by auto
    qed
  qed
  have later: "int (nat (f k)) \<notin> gatheredAt f runs" if "0 \<le> k" "k \<le> e1" for k
  proof
    assume "int (nat (f k)) \<in> gatheredAt f runs"
    with range [of k] that b have "f k \<in> gatheredAt f runs" by simp
    from gatheredAt_from [OF tl this] obtain k' where k': "e1 + 1 \<le> k'" "k' < bound" "f k = f k'"
      by blast
    with that b have "k \<in> {0..<bound}" "k' \<in> {0..<bound}" by auto
    with inj k'(3) have "k = k'" by (metis inj_onD)
    with k' that show False by simp
  qed
  have earlier: "int (nat (f k)) \<notin> (if 1 < e1 - s1 then f ` {s1..<e1} else {})"
    if "e1 + 1 \<le> k" "k < bound" for k
  proof
    assume "int (nat (f k)) \<in> (if 1 < e1 - s1 then f ` {s1..<e1} else {})"
    with range [of k] that b Cons.prems(2) obtain k' where k': "s1 \<le> k'" "k' < e1" "f k = f k'"
      by (auto split: if_splits)
    with that b Cons.prems(2) have "k \<in> {0..<bound}" "k' \<in> {0..<bound}" by auto
    with inj k'(3) have "k = k'" by (metis inj_onD)
    with k' that show False by simp
  qed
  have len: "length ?q = length p" using IH by simp
  have frame: "?q ! j = p ! j" if "j < length p" "int j \<notin> gatheredAt f (r # runs)" for j
  proof -
    from that(2) have a: "int j \<notin> (if 1 < e1 - s1 then f ` {s1..<e1} else {})"
      "int j \<notin> gatheredAt f runs"
      by (simp_all add: r gatheredAt_Cons)
    from IH that(1) a(2) have "?q ! j = ?p1 ! j" by simp
    with first [OF that(1) a(1)] show ?thesis by simp
  qed
  have sorted: "runElems (\<lambda>i. f (s + i)) ?q (e - s) = sort_key sint (runElems (\<lambda>i. f (s + i)) p (e - s))"
    if m: "(s, e) \<in> set (r # runs)" and long: "1 < e - s" for s e
  proof (cases "(s, e) \<in> set runs")
    case True
    from runsFrom_mem [OF tl True] have se: "e1 + 1 \<le> s" "s \<le> e" "e < bound" by simp_all
    have "runElems (\<lambda>i. f (s + i)) ?p1 (e - s) = runElems (\<lambda>i. f (s + i)) p (e - s)"
    proof (rule runElems_cong)
      fix i :: int assume i: "0 \<le> i" "i < e - s"
      then have k: "e1 + 1 \<le> s + i" "s + i < bound" using se by simp_all
      have "nat (f (s + i)) < length p"
        using k b Cons.prems(2) by (intro pos) simp_all
      from first [OF this earlier [OF k]]
      show "?p1 ! nat (f (s + i)) = p ! nat (f (s + i))" .
    qed
    with IH True long show ?thesis by auto
  next
    case False
    with m r have se: "s = s1" "e = e1" by simp_all
    have "runElems (\<lambda>i. f (s1 + i)) ?q (e1 - s1) = runElems (\<lambda>i. f (s1 + i)) ?p1 (e1 - s1)"
    proof (rule runElems_cong)
      fix i :: int assume i: "0 \<le> i" "i < e1 - s1"
      then have k: "0 \<le> s1 + i" "s1 + i \<le> e1" using b Cons.prems(2) by simp_all
      have "nat (f (s1 + i)) < length ?p1"
        using pos [of "s1 + i"] k b by simp
      with IH later [OF k]
      show "?q ! nat (f (s1 + i)) = ?p1 ! nat (f (s1 + i))" by simp
    qed
    also have "\<dots> = sort_key sint (runElems (\<lambda>i. f (s1 + i)) p (e1 - s1))"
    proof (rule sortRun_sorted)
      show "1 < e1 - s1" using long se by simp
      show "0 \<le> f (s1 + i) \<and> f (s1 + i) < int (length p)" if "0 \<le> i" "i < e1 - s1" for i
        using range [of "s1 + i"] that b Cons.prems(2) by simp
      have "inj_on ((+) s1) {0..<e1 - s1}" by (simp add: inj_on_def)
      moreover have "(+) s1 ` {0..<e1 - s1} \<subseteq> {0..<bound}"
        using b Cons.prems(2) by auto
      ultimately have "inj_on (f \<circ> (+) s1) {0..<e1 - s1}"
        using inj by (intro comp_inj_on) (auto intro: inj_on_subset)
      then show "inj_on (\<lambda>i. f (s1 + i)) {0..<e1 - s1}" by (simp add: comp_def)
    qed
    finally show ?thesis by (simp add: se)
  qed
  show ?case
    unfolding q using len frame sorted by blast
qed

text \<open>
  A pass is the fold of the sort of one run over the runs it detects, in order.
\<close>

lemma sortRow_loop_runs:
  "sortRow_loop luma th pixels width height row mode x xEnd =
     foldl (\<lambda>p (s, e). sortRun (\<lambda>i. s + i + row * width) p (e - s)) pixels
       (sortRow_runs_loop luma th pixels width height row mode x xEnd)"
proof (induction luma th pixels width height row mode x xEnd rule: sortRow_loop.induct)
  case (1 luma th pixels width height row mode x xEnd)
  show ?case
  proof (cases "xEnd < width - 1")
    case False
    then show ?thesis
      by (subst sortRow_loop.simps, subst sortRow_runs_loop.simps) simp
  next
    case running: True
    obtain x1 xEnd1 where sc: "scanRow luma th mode pixels width x row = (x1, xEnd1)"
      by force
    show ?thesis
    proof (cases "x1 < 0")
      case True
      then show ?thesis
        using running sc by (subst sortRow_loop.simps, subst sortRow_runs_loop.simps) simp
    next
      case False
      from "1.IH" [OF running sc [symmetric] False] show ?thesis
        using running sc False by (subst sortRow_loop.simps, subst sortRow_runs_loop.simps) simp
    qed
  qed
qed

lemma sortColumn_loop_runs:
  "sortColumn_loop luma th pixels width height column mode y yEnd =
     foldl (\<lambda>p (s, e). sortRun (\<lambda>i. column + (s + i) * width) p (e - s)) pixels
       (sortColumn_runs_loop luma th pixels width height column mode y yEnd)"
proof (induction luma th pixels width height column mode y yEnd rule: sortColumn_loop.induct)
  case (1 luma th pixels width height column mode y yEnd)
  show ?case
  proof (cases "yEnd < height - 1")
    case False
    then show ?thesis
      by (subst sortColumn_loop.simps, subst sortColumn_runs_loop.simps) simp
  next
    case running: True
    obtain y1 yEnd1 where
      sc: "scanColumn luma th mode pixels width height column y = (y1, yEnd1)"
      by force
    show ?thesis
    proof (cases "y1 < 0")
      case True
      then show ?thesis
        using running sc
        by (subst sortColumn_loop.simps, subst sortColumn_runs_loop.simps) simp
    next
      case False
      from "1.IH" [OF running sc [symmetric] False] show ?thesis
        using running sc False
        by (subst sortColumn_loop.simps, subst sortColumn_runs_loop.simps) simp
    qed
  qed
qed

lemma sortRow_runs_loop_ordered:
  assumes "0 \<le> x" "x \<le> xEnd + 1"
  shows "runsFrom x width (sortRow_runs_loop luma th pixels width height row mode x xEnd)"
  using assms
proof (induction luma th pixels width height row mode x xEnd rule: sortRow_runs_loop.induct)
  case (1 luma th pixels width height row mode x xEnd)
  show ?case
  proof (cases "xEnd < width - 1")
    case False
    then show ?thesis by (subst sortRow_runs_loop.simps) simp
  next
    case running: True
    obtain x1 xEnd1 where sc: "scanRow luma th mode pixels width x row = (x1, xEnd1)"
      by force
    show ?thesis
    proof (cases "x1 < 0")
      case True
      then show ?thesis
        using running sc by (subst sortRow_runs_loop.simps) simp
    next
      case False
      have "x < width" using running "1.prems"(2) by simp
      with scanRow_bounds [OF sc "1.prems"(1)] False
      have b: "x \<le> x1" "x1 \<le> xEnd1" "xEnd1 \<le> width - 1" by simp_all
      have "runsFrom (xEnd1 + 1) width
              (sortRow_runs_loop luma th (sortRun (\<lambda>i. x1 + i + row * width) pixels (xEnd1 - x1))
                 width height row mode (xEnd1 + 1) xEnd1)"
        using b "1.prems"(1) by (intro "1.IH" [OF running sc [symmetric] False]) simp_all
      then show ?thesis
        using running sc False b by (subst sortRow_runs_loop.simps) simp
    qed
  qed
qed

lemma sortColumn_runs_loop_ordered:
  assumes "0 \<le> y" "y \<le> yEnd + 1"
  shows "runsFrom y height
           (sortColumn_runs_loop luma th pixels width height column mode y yEnd)"
  using assms
proof (induction luma th pixels width height column mode y yEnd
    rule: sortColumn_runs_loop.induct)
  case (1 luma th pixels width height column mode y yEnd)
  show ?case
  proof (cases "yEnd < height - 1")
    case False
    then show ?thesis by (subst sortColumn_runs_loop.simps) simp
  next
    case running: True
    obtain y1 yEnd1 where
      sc: "scanColumn luma th mode pixels width height column y = (y1, yEnd1)"
      by force
    show ?thesis
    proof (cases "y1 < 0")
      case True
      then show ?thesis
        using running sc by (subst sortColumn_runs_loop.simps) simp
    next
      case False
      have "y < height" using running "1.prems"(2) by simp
      with scanColumn_bounds [OF sc "1.prems"(1)] False
      have b: "y \<le> y1" "y1 \<le> yEnd1" "yEnd1 \<le> height - 1" by simp_all
      have "runsFrom (yEnd1 + 1) height
              (sortColumn_runs_loop luma th
                 (sortRun (\<lambda>i. column + (y1 + i) * width) pixels (yEnd1 - y1))
                 width height column mode (yEnd1 + 1) yEnd1)"
        using b "1.prems"(1) by (intro "1.IH" [OF running sc [symmetric] False]) simp_all
      then show ?thesis
        using running sc False b by (subst sortColumn_runs_loop.simps) simp
    qed
  qed
qed

text \<open>
  What a pass over a scanline does, from the runs it detects: \<open>f k\<close> is the buffer index
  of position \<open>k\<close> of the scanline.
\<close>

lemma pass_effect:
  fixes f :: "int \<Rightarrow> int"
  assumes ord: "runsFrom 0 bound runs"
    and range: "\<And>k. 0 \<le> k \<Longrightarrow> k < bound \<Longrightarrow> 0 \<le> f k \<and> f k < int (length p)"
    and inj: "inj_on f {0..<bound}"
    and q: "q = foldl (\<lambda>p (s, e). sortRun (\<lambda>i. f (s + i)) p (e - s)) p runs"
  shows "writtenOnly (gatheredAt f runs) p q"
    and "writtenOnly (runsAt f runs) p q"
    and "(s, e) \<in> set runs \<Longrightarrow> sortedExceptEnd f s e p q"
    and "(s, e) \<in> set runs \<Longrightarrow>
         mset (map (\<lambda>k. q ! nat (f k)) [s..e]) = mset (map (\<lambda>k. p ! nat (f k)) [s..e])"
proof -
  note fold = foldl_sortRun_runs [OF ord _ range inj, folded q]
  have len: "length q = length p" using fold by simp
  have frame: "q ! j = p ! j" if "j < length p" "int j \<notin> gatheredAt f runs" for j
    using fold that by simp
  show w: "writtenOnly (gatheredAt f runs) p q"
    using len frame by (simp add: writtenOnly_def)
  show "writtenOnly (runsAt f runs) p q"
    using w gatheredAt_subset [of f runs] unfolding writtenOnly_def by blast
  have same: "q ! nat (f k) = p ! nat (f k)"
    if m: "(s, e) \<in> set runs" and k: "s \<le> k" "k \<le> e" "\<not> (1 < e - s \<and> k < e)" for s e k
  proof -
    from runsFrom_mem [OF ord m] k have kb: "0 \<le> k" "k < bound" by simp_all
    from range [OF kb] have r: "nat (f k) < length p" "int (nat (f k)) = f k"
      by (auto simp: nat_less_iff)
    have "f k \<notin> gatheredAt f runs"
      using gatheredAt_iff [OF ord _ inj m k(1,2)] k(3) by simp
    with r frame [of "nat (f k)"] show ?thesis by simp
  qed
  have sorted: "map (\<lambda>k. q ! nat (f k)) [s..e - 1] =
        sort_key sint (map (\<lambda>k. p ! nat (f k)) [s..e - 1])"
    if "(s, e) \<in> set runs" "1 < e - s" for s e
    using fold that unfolding runElems_upto by blast
  show "sortedExceptEnd f s e p q" if m: "(s, e) \<in> set runs"
  proof -
    from runsFrom_mem [OF ord m] have se: "s \<le> e" by simp
    show ?thesis
      unfolding sortedExceptEnd_def
      using sorted [OF m] same [OF m, of s] same [OF m, of e] se by simp
  qed
  show "mset (map (\<lambda>k. q ! nat (f k)) [s..e]) = mset (map (\<lambda>k. p ! nat (f k)) [s..e])"
    if m: "(s, e) \<in> set runs"
  proof (cases "1 < e - s")
    case True
    then have split: "[s..e] = [s..e - 1] @ [e]" by (simp add: upto_rec2)
    show ?thesis
      unfolding split using sorted [OF m True] same [OF m, of e] True by simp
  next
    case False
    have "q ! nat (f k) = p ! nat (f k)" if "k \<in> set [s..e]" for k
      using same [OF m, of k] that False by simp
    then have "map (\<lambda>k. q ! nat (f k)) [s..e] = map (\<lambda>k. p ! nat (f k)) [s..e]"
      by (intro map_cong) simp_all
    then show ?thesis by (rule arg_cong)
  qed
qed

lemma sortRow_effect:
  assumes "int (length pixels) = width * height" "0 \<le> row" "row < height"
  shows "runsFrom 0 width (sortRow_runs luma th pixels width height row mode)"
    and "writtenOnly
           (gatheredAt (\<lambda>k. k + row * width) (sortRow_runs luma th pixels width height row mode))
           pixels (sortRow luma th pixels width height row mode)"
    and "writtenOnly
           (runsAt (\<lambda>k. k + row * width) (sortRow_runs luma th pixels width height row mode))
           pixels (sortRow luma th pixels width height row mode)"
    and "(s, e) \<in> set (sortRow_runs luma th pixels width height row mode) \<Longrightarrow>
         sortedExceptEnd (\<lambda>k. k + row * width) s e pixels
           (sortRow luma th pixels width height row mode)"
    and "(s, e) \<in> set (sortRow_runs luma th pixels width height row mode) \<Longrightarrow>
         mset (map (\<lambda>k. sortRow luma th pixels width height row mode ! nat (k + row * width))
                 [s..e]) =
         mset (map (\<lambda>k. pixels ! nat (k + row * width)) [s..e])"
proof -
  let ?runs = "sortRow_runs luma th pixels width height row mode"
  let ?f = "\<lambda>k. k + row * width"
  show ord: "runsFrom 0 width ?runs"
    unfolding sortRow_runs_def by (rule sortRow_runs_loop_ordered) simp_all
  have range: "0 \<le> ?f k \<and> ?f k < int (length pixels)" if "0 \<le> k" "k < width" for k
    using index_in_range [OF that assms(2,3)] assms(1) by simp
  have inj: "inj_on ?f {0..<width}" by (simp add: inj_on_def)
  have q: "sortRow luma th pixels width height row mode =
      foldl (\<lambda>p (s, e). sortRun (\<lambda>i. ?f (s + i)) p (e - s)) pixels ?runs"
    unfolding sortRow_def sortRow_runs_def by (rule sortRow_loop_runs)
  note eff = pass_effect [where bound = width and f = ?f, OF ord range inj q]
  show "writtenOnly (gatheredAt ?f ?runs) pixels (sortRow luma th pixels width height row mode)"
    by (rule eff(1))
  show "writtenOnly (runsAt ?f ?runs) pixels (sortRow luma th pixels width height row mode)"
    by (rule eff(2))
  show "sortedExceptEnd ?f s e pixels (sortRow luma th pixels width height row mode)"
    if "(s, e) \<in> set ?runs"
    by (rule eff(3)) (use that in simp_all)
  show "mset (map (\<lambda>k. sortRow luma th pixels width height row mode ! nat (k + row * width))
                 [s..e]) =
         mset (map (\<lambda>k. pixels ! nat (k + row * width)) [s..e])"
    if "(s, e) \<in> set ?runs"
    by (rule eff(4)) (use that in simp_all)
qed

lemma sortColumn_effect:
  assumes "int (length pixels) = width * height" "0 \<le> column" "column < width"
  shows "runsFrom 0 height (sortColumn_runs luma th pixels width height column mode)"
    and "writtenOnly
           (gatheredAt (\<lambda>k. column + k * width)
              (sortColumn_runs luma th pixels width height column mode))
           pixels (sortColumn luma th pixels width height column mode)"
    and "writtenOnly
           (runsAt (\<lambda>k. column + k * width)
              (sortColumn_runs luma th pixels width height column mode))
           pixels (sortColumn luma th pixels width height column mode)"
    and "(s, e) \<in> set (sortColumn_runs luma th pixels width height column mode) \<Longrightarrow>
         sortedExceptEnd (\<lambda>k. column + k * width) s e pixels
           (sortColumn luma th pixels width height column mode)"
    and "(s, e) \<in> set (sortColumn_runs luma th pixels width height column mode) \<Longrightarrow>
         mset (map (\<lambda>k. sortColumn luma th pixels width height column mode !
                          nat (column + k * width)) [s..e]) =
         mset (map (\<lambda>k. pixels ! nat (column + k * width)) [s..e])"
proof -
  let ?runs = "sortColumn_runs luma th pixels width height column mode"
  let ?f = "\<lambda>k. column + k * width"
  show ord: "runsFrom 0 height ?runs"
    unfolding sortColumn_runs_def by (rule sortColumn_runs_loop_ordered) simp_all
  have range: "0 \<le> ?f k \<and> ?f k < int (length pixels)" if "0 \<le> k" "k < height" for k
    using index_in_range [OF assms(2,3) that] assms(1) by simp
  have "0 < width" using assms(2,3) by linarith
  then have inj: "inj_on ?f {0..<height}" by (simp add: inj_on_def)
  have q: "sortColumn luma th pixels width height column mode =
      foldl (\<lambda>p (s, e). sortRun (\<lambda>i. ?f (s + i)) p (e - s)) pixels ?runs"
    unfolding sortColumn_def sortColumn_runs_def by (rule sortColumn_loop_runs)
  note eff = pass_effect [where bound = height and f = ?f, OF ord range inj q]
  show "writtenOnly (gatheredAt ?f ?runs) pixels
          (sortColumn luma th pixels width height column mode)"
    by (rule eff(1))
  show "writtenOnly (runsAt ?f ?runs) pixels
          (sortColumn luma th pixels width height column mode)"
    by (rule eff(2))
  show "sortedExceptEnd ?f s e pixels (sortColumn luma th pixels width height column mode)"
    if "(s, e) \<in> set ?runs"
    by (rule eff(3)) (use that in simp_all)
  show "mset (map (\<lambda>k. sortColumn luma th pixels width height column mode !
                          nat (column + k * width)) [s..e]) =
         mset (map (\<lambda>k. pixels ! nat (column + k * width)) [s..e])"
    if "(s, e) \<in> set ?runs"
    by (rule eff(4)) (use that in simp_all)
qed

text \<open>
  A buffer of eight columns and four rows for White mode: its first row has a pixel below
  \<open>whiteValue\<close> at position 3.
\<close>

definition whiteBuffer :: int32array where
  "whiteBuffer =
     [- 1, - 3, - 2, - 16777216, - 5, - 4, - 6, - 7,
      - 9, - 8, - 8, - 8, - 8, - 8, - 8, - 8,
      - 5, - 8, - 8, - 8, - 8, - 8, - 8, - 8,
      - 2, - 8, - 8, - 8, - 8, - 8, - 8, - 8]"

text \<open>
  Claim C2, as the code has it. For every run that a pass of \<open>sortRow\<close> over a row, or of
  \<open>sortColumn\<close> over a column, detects, with start \<open>s\<close> and end \<open>e\<close>: the run lies in
  the scanline, and the sorting length is \<open>e - s\<close>. When it exceeds 1, the positions
  \<open>s, \<dots>, e - 1\<close> (the end excluded) hold after the pass the ascending sort, by signed
  value, of the packed colours they held before it; when it is at most 1 the run is left as
  it is; the end \<open>e\<close> holds what it held in either case. The pass writes nowhere but at
  the gathered positions of its runs.
\<close>

theorem run_sort_excludes_end:
  "(int (length pixels) = width * height \<and> 0 \<le> row \<and> row < height \<and>
    (s, e) \<in> set (sortRow_runs luma th pixels width height row mode) \<longrightarrow>
      0 \<le> s \<and> s \<le> e \<and> e < width \<and>
      sortedExceptEnd (\<lambda>k. k + row * width) s e pixels
        (sortRow luma th pixels width height row mode) \<and>
      writtenOnly
        (gatheredAt (\<lambda>k. k + row * width) (sortRow_runs luma th pixels width height row mode))
        pixels (sortRow luma th pixels width height row mode)) \<and>
   (int (length pixels) = width * height \<and> 0 \<le> column \<and> column < width \<and>
    (s, e) \<in> set (sortColumn_runs luma th pixels width height column mode) \<longrightarrow>
      0 \<le> s \<and> s \<le> e \<and> e < height \<and>
      sortedExceptEnd (\<lambda>k. column + k * width) s e pixels
        (sortColumn luma th pixels width height column mode) \<and>
      writtenOnly
        (gatheredAt (\<lambda>k. column + k * width)
           (sortColumn_runs luma th pixels width height column mode))
        pixels (sortColumn luma th pixels width height column mode))"
proof (intro conjI impI; elim conjE)
  assume a: "int (length pixels) = width * height" "0 \<le> row" "row < height"
    and m: "(s, e) \<in> set (sortRow_runs luma th pixels width height row mode)"
  from runsFrom_mem [OF sortRow_effect(1) [OF a] m]
  show "0 \<le> s" "s \<le> e" "e < width" by simp_all
  show "sortedExceptEnd (\<lambda>k. k + row * width) s e pixels
          (sortRow luma th pixels width height row mode)"
    using a m by (rule sortRow_effect(4))
  show "writtenOnly
          (gatheredAt (\<lambda>k. k + row * width) (sortRow_runs luma th pixels width height row mode))
          pixels (sortRow luma th pixels width height row mode)"
    using a by (rule sortRow_effect(2))
next
  assume a: "int (length pixels) = width * height" "0 \<le> column" "column < width"
    and m: "(s, e) \<in> set (sortColumn_runs luma th pixels width height column mode)"
  from runsFrom_mem [OF sortColumn_effect(1) [OF a] m]
  show "0 \<le> s" "s \<le> e" "e < height" by simp_all
  show "sortedExceptEnd (\<lambda>k. column + k * width) s e pixels
          (sortColumn luma th pixels width height column mode)"
    using a m by (rule sortColumn_effect(4))
  show "writtenOnly
          (gatheredAt (\<lambda>k. column + k * width)
             (sortColumn_runs luma th pixels width height column mode))
          pixels (sortColumn luma th pixels width height column mode)"
    using a by (rule sortColumn_effect(2))
qed

theorem run_sort_excludes_end_witness:
  "int (length whiteBuffer) = 8 * 4 \<and> (0::int) \<le> 0 \<and> (0::int) < 4 \<and> (0::int) < 8 \<and>
   sortRow_runs luma_exact PixelSorter whiteBuffer 8 4 0 White = [(0, 2), (4, 7)] \<and>
   sortRow luma_exact PixelSorter whiteBuffer 8 4 0 White =
     [- 3, - 1, - 2, - 16777216, - 6, - 5, - 4, - 7,
      - 9, - 8, - 8, - 8, - 8, - 8, - 8, - 8,
      - 5, - 8, - 8, - 8, - 8, - 8, - 8, - 8,
      - 2, - 8, - 8, - 8, - 8, - 8, - 8, - 8] \<and>
   sortedExceptEnd (\<lambda>k. k + 0 * 8) 4 7 whiteBuffer
     (sortRow luma_exact PixelSorter whiteBuffer 8 4 0 White) \<and>
   writtenOnly
     (gatheredAt (\<lambda>k. k + 0 * 8) (sortRow_runs luma_exact PixelSorter whiteBuffer 8 4 0 White))
     whiteBuffer (sortRow luma_exact PixelSorter whiteBuffer 8 4 0 White) \<and>
   sortColumn_runs luma_exact PixelSorter whiteBuffer 8 4 0 White = [(0, 3)] \<and>
   sortColumn luma_exact PixelSorter whiteBuffer 8 4 0 White =
     [- 9, - 3, - 2, - 16777216, - 5, - 4, - 6, - 7,
      - 5, - 8, - 8, - 8, - 8, - 8, - 8, - 8,
      - 1, - 8, - 8, - 8, - 8, - 8, - 8, - 8,
      - 2, - 8, - 8, - 8, - 8, - 8, - 8, - 8] \<and>
   sortedExceptEnd (\<lambda>k. 0 + k * 8) 0 3 whiteBuffer
     (sortColumn luma_exact PixelSorter whiteBuffer 8 4 0 White) \<and>
   writtenOnly
     (gatheredAt (\<lambda>k. 0 + k * 8)
        (sortColumn_runs luma_exact PixelSorter whiteBuffer 8 4 0 White))
     whiteBuffer (sortColumn luma_exact PixelSorter whiteBuffer 8 4 0 White)"
proof -
  have rr: "sortRow_runs luma_exact PixelSorter whiteBuffer 8 4 0 White = [(0, 2), (4, 7)]"
    unfolding whiteBuffer_def by code_simp
  have r: "sortRow luma_exact PixelSorter whiteBuffer 8 4 0 White =
     [- 3, - 1, - 2, - 16777216, - 6, - 5, - 4, - 7,
      - 9, - 8, - 8, - 8, - 8, - 8, - 8, - 8,
      - 5, - 8, - 8, - 8, - 8, - 8, - 8, - 8,
      - 2, - 8, - 8, - 8, - 8, - 8, - 8, - 8]"
    unfolding whiteBuffer_def by code_simp
  have cr: "sortColumn_runs luma_exact PixelSorter whiteBuffer 8 4 0 White = [(0, 3)]"
    unfolding whiteBuffer_def by code_simp
  have c: "sortColumn luma_exact PixelSorter whiteBuffer 8 4 0 White =
     [- 9, - 3, - 2, - 16777216, - 5, - 4, - 6, - 7,
      - 5, - 8, - 8, - 8, - 8, - 8, - 8, - 8,
      - 1, - 8, - 8, - 8, - 8, - 8, - 8, - 8,
      - 2, - 8, - 8, - 8, - 8, - 8, - 8, - 8]"
    unfolding whiteBuffer_def by code_simp
  have l: "int (length whiteBuffer) = 8 * 4"
    by (simp add: whiteBuffer_def)
  have mr: "(4, 7) \<in> set (sortRow_runs luma_exact PixelSorter whiteBuffer 8 4 0 White)"
    by (simp add: rr)
  have mc: "(0, 3) \<in> set (sortColumn_runs luma_exact PixelSorter whiteBuffer 8 4 0 White)"
    by (simp add: cr)
  from run_sort_excludes_end [where luma = luma_exact and th = PixelSorter and mode = White
      and pixels = whiteBuffer and width = 8 and height = 4 and row = 0 and s = 4 and e = 7] l mr
  have 1: "sortedExceptEnd (\<lambda>k. k + 0 * 8) 4 7 whiteBuffer
       (sortRow luma_exact PixelSorter whiteBuffer 8 4 0 White)"
    "writtenOnly
       (gatheredAt (\<lambda>k. k + 0 * 8) (sortRow_runs luma_exact PixelSorter whiteBuffer 8 4 0 White))
       whiteBuffer (sortRow luma_exact PixelSorter whiteBuffer 8 4 0 White)"
    by simp_all
  from run_sort_excludes_end [where luma = luma_exact and th = PixelSorter and mode = White
      and pixels = whiteBuffer and width = 8 and height = 4 and column = 0 and s = 0 and e = 3]
    l mc
  have 2: "sortedExceptEnd (\<lambda>k. 0 + k * 8) 0 3 whiteBuffer
       (sortColumn luma_exact PixelSorter whiteBuffer 8 4 0 White)"
    "writtenOnly
       (gatheredAt (\<lambda>k. 0 + k * 8)
          (sortColumn_runs luma_exact PixelSorter whiteBuffer 8 4 0 White))
       whiteBuffer (sortColumn luma_exact PixelSorter whiteBuffer 8 4 0 White)"
    by simp_all
  from l rr r cr c 1 2 show ?thesis by simp
qed

text \<open>
  Claim C2 as the specification words it fails on both counts. In White mode with the
  default thresholds, the row \<open>-1, -2, -16777216\<close> has the run from 0 to 1, of length
  \<open>end - start + 1 = 2\<close>, and \<open>sortRow\<close> leaves it unsorted; the row \<open>-1, -2, -3, -16777216\<close>
  has the run from 0 to 2, and \<open>sortRow\<close> sorts the positions 0 and 1 only.
\<close>

theorem run_sort_counterexample:
  "scanRow luma_exact PixelSorter White [- 1, - 2, - 16777216, - 1, - 1, - 1] 3 0 0 = (0, 1) \<and>
   sortRow luma_exact PixelSorter [- 1, - 2, - 16777216, - 1, - 1, - 1] 3 2 0 White =
     [- 1, - 2, - 16777216, - 1, - 1, - 1] \<and>
   scanRow luma_exact PixelSorter White [- 1, - 2, - 3, - 16777216, - 1, - 1, - 1, - 1] 4 0 0 = (0, 2) \<and>
   sortRow luma_exact PixelSorter [- 1, - 2, - 3, - 16777216, - 1, - 1, - 1, - 1] 4 2 0 White =
     [- 2, - 1, - 3, - 16777216, - 1, - 1, - 1, - 1]"
  by code_simp

text \<open>
  A buffer of eight columns and four rows of greys for Dark mode: 100, 50, 10, 255, 200,
  100, 50, 10 in the first row and 100, 200, 50, 10 in the first column.
\<close>

definition greyBuffer :: int32array where
  "greyBuffer =
     [- 10197916, - 13487566, - 16119286, - 1, - 3618616, - 10197916, - 13487566, - 16119286,
      - 3618616, - 1, - 1, - 1, - 1, - 1, - 1, - 1,
      - 13487566, - 1, - 1, - 1, - 1, - 1, - 1, - 1,
      - 16119286, - 1, - 1, - 1, - 1, - 1, - 1, - 1]"

text \<open>
  Claim C4. For every run that a pass of \<open>sortRow\<close> over a row, or of \<open>sortColumn\<close> over
  a column, detects, in every mode: the positions \<open>s, \<dots>, e\<close> of the run hold after the
  pass the multiset of packed values that they held before it; the runs of the pass are
  pairwise disjoint; and at every position of the buffer outside its runs, in the scanline
  or in another, the pass leaves the element that was there. So the order changes inside
  the runs only, and no value enters or leaves a run.
\<close>

theorem run_local_permutation:
  "(int (length pixels) = width * height \<and> 0 \<le> row \<and> row < height \<and>
    (s, e) \<in> set (sortRow_runs luma th pixels width height row mode) \<longrightarrow>
      mset (map (\<lambda>k. sortRow luma th pixels width height row mode ! nat (k + row * width))
              [s..e]) =
      mset (map (\<lambda>k. pixels ! nat (k + row * width)) [s..e]) \<and>
      (\<forall>(s', e')\<in>set (sortRow_runs luma th pixels width height row mode).
         (s', e') = (s, e) \<or> e' < s \<or> e < s') \<and>
      writtenOnly
        (runsAt (\<lambda>k. k + row * width) (sortRow_runs luma th pixels width height row mode))
        pixels (sortRow luma th pixels width height row mode)) \<and>
   (int (length pixels) = width * height \<and> 0 \<le> column \<and> column < width \<and>
    (s, e) \<in> set (sortColumn_runs luma th pixels width height column mode) \<longrightarrow>
      mset (map (\<lambda>k. sortColumn luma th pixels width height column mode !
                       nat (column + k * width)) [s..e]) =
      mset (map (\<lambda>k. pixels ! nat (column + k * width)) [s..e]) \<and>
      (\<forall>(s', e')\<in>set (sortColumn_runs luma th pixels width height column mode).
         (s', e') = (s, e) \<or> e' < s \<or> e < s') \<and>
      writtenOnly
        (runsAt (\<lambda>k. column + k * width)
           (sortColumn_runs luma th pixels width height column mode))
        pixels (sortColumn luma th pixels width height column mode))"
proof -
  have apart: "(s', e') = (s, e) \<or> e' < s \<or> e < s'"
    if ord: "runsFrom 0 bound runs" and m: "(s, e) \<in> set runs" "(s', e') \<in> set runs"
    for bound runs s' e'
  proof (rule ccontr)
    assume n: "\<not> ((s', e') = (s, e) \<or> e' < s \<or> e < s')"
    from runsFrom_mem [OF ord m(1)] runsFrom_mem [OF ord m(2)] n
    have "s \<le> max s s'" "max s s' \<le> e" "s' \<le> max s s'" "max s s' \<le> e'" by simp_all
    from runsFrom_disjoint [OF ord m this] n show False by simp
  qed
  show ?thesis
  proof (intro conjI impI; elim conjE)
    assume a: "int (length pixels) = width * height" "0 \<le> row" "row < height"
      and m: "(s, e) \<in> set (sortRow_runs luma th pixels width height row mode)"
    show "mset (map (\<lambda>k. sortRow luma th pixels width height row mode ! nat (k + row * width))
              [s..e]) =
      mset (map (\<lambda>k. pixels ! nat (k + row * width)) [s..e])"
      using a m by (rule sortRow_effect(5))
    show "\<forall>(s', e')\<in>set (sortRow_runs luma th pixels width height row mode).
         (s', e') = (s, e) \<or> e' < s \<or> e < s'"
      using apart [OF sortRow_effect(1) [OF a] m] by blast
    show "writtenOnly
        (runsAt (\<lambda>k. k + row * width) (sortRow_runs luma th pixels width height row mode))
        pixels (sortRow luma th pixels width height row mode)"
      using a by (rule sortRow_effect(3))
  next
    assume a: "int (length pixels) = width * height" "0 \<le> column" "column < width"
      and m: "(s, e) \<in> set (sortColumn_runs luma th pixels width height column mode)"
    show "mset (map (\<lambda>k. sortColumn luma th pixels width height column mode !
                       nat (column + k * width)) [s..e]) =
      mset (map (\<lambda>k. pixels ! nat (column + k * width)) [s..e])"
      using a m by (rule sortColumn_effect(5))
    show "\<forall>(s', e')\<in>set (sortColumn_runs luma th pixels width height column mode).
         (s', e') = (s, e) \<or> e' < s \<or> e < s'"
      using apart [OF sortColumn_effect(1) [OF a] m] by blast
    show "writtenOnly
        (runsAt (\<lambda>k. column + k * width)
           (sortColumn_runs luma th pixels width height column mode))
        pixels (sortColumn luma th pixels width height column mode)"
      using a by (rule sortColumn_effect(3))
  qed
qed

theorem run_local_permutation_witness:
  "int (length greyBuffer) = 8 * 4 \<and> (0::int) \<le> 0 \<and> (0::int) < 4 \<and> (0::int) < 8 \<and>
   sortRow_runs luma_exact PixelSorter greyBuffer 8 4 0 Dark = [(0, 2), (4, 7)] \<and>
   sortRow luma_exact PixelSorter greyBuffer 8 4 0 Dark =
     [- 13487566, - 10197916, - 16119286, - 1, - 13487566, - 10197916, - 3618616, - 16119286,
      - 3618616, - 1, - 1, - 1, - 1, - 1, - 1, - 1,
      - 13487566, - 1, - 1, - 1, - 1, - 1, - 1, - 1,
      - 16119286, - 1, - 1, - 1, - 1, - 1, - 1, - 1] \<and>
   mset (map (\<lambda>k. sortRow luma_exact PixelSorter greyBuffer 8 4 0 Dark ! nat (k + 0 * 8)) [4..7]) =
   mset (map (\<lambda>k. greyBuffer ! nat (k + 0 * 8)) [4..7]) \<and>
   writtenOnly
     (runsAt (\<lambda>k. k + 0 * 8) (sortRow_runs luma_exact PixelSorter greyBuffer 8 4 0 Dark))
     greyBuffer (sortRow luma_exact PixelSorter greyBuffer 8 4 0 Dark) \<and>
   sortColumn_runs luma_exact PixelSorter greyBuffer 8 4 0 Dark = [(0, 3)] \<and>
   sortColumn luma_exact PixelSorter greyBuffer 8 4 0 Dark =
     [- 13487566, - 13487566, - 16119286, - 1, - 3618616, - 10197916, - 13487566, - 16119286,
      - 10197916, - 1, - 1, - 1, - 1, - 1, - 1, - 1,
      - 3618616, - 1, - 1, - 1, - 1, - 1, - 1, - 1,
      - 16119286, - 1, - 1, - 1, - 1, - 1, - 1, - 1] \<and>
   mset (map (\<lambda>k. sortColumn luma_exact PixelSorter greyBuffer 8 4 0 Dark ! nat (0 + k * 8))
           [0..3]) =
   mset (map (\<lambda>k. greyBuffer ! nat (0 + k * 8)) [0..3]) \<and>
   writtenOnly
     (runsAt (\<lambda>k. 0 + k * 8) (sortColumn_runs luma_exact PixelSorter greyBuffer 8 4 0 Dark))
     greyBuffer (sortColumn luma_exact PixelSorter greyBuffer 8 4 0 Dark)"
proof -
  have rr: "sortRow_runs luma_exact PixelSorter greyBuffer 8 4 0 Dark = [(0, 2), (4, 7)]"
    unfolding greyBuffer_def by code_simp
  have r: "sortRow luma_exact PixelSorter greyBuffer 8 4 0 Dark =
     [- 13487566, - 10197916, - 16119286, - 1, - 13487566, - 10197916, - 3618616, - 16119286,
      - 3618616, - 1, - 1, - 1, - 1, - 1, - 1, - 1,
      - 13487566, - 1, - 1, - 1, - 1, - 1, - 1, - 1,
      - 16119286, - 1, - 1, - 1, - 1, - 1, - 1, - 1]"
    unfolding greyBuffer_def by code_simp
  have cr: "sortColumn_runs luma_exact PixelSorter greyBuffer 8 4 0 Dark = [(0, 3)]"
    unfolding greyBuffer_def by code_simp
  have c: "sortColumn luma_exact PixelSorter greyBuffer 8 4 0 Dark =
     [- 13487566, - 13487566, - 16119286, - 1, - 3618616, - 10197916, - 13487566, - 16119286,
      - 10197916, - 1, - 1, - 1, - 1, - 1, - 1, - 1,
      - 3618616, - 1, - 1, - 1, - 1, - 1, - 1, - 1,
      - 16119286, - 1, - 1, - 1, - 1, - 1, - 1, - 1]"
    unfolding greyBuffer_def by code_simp
  have l: "int (length greyBuffer) = 8 * 4"
    by (simp add: greyBuffer_def)
  have mr: "(4, 7) \<in> set (sortRow_runs luma_exact PixelSorter greyBuffer 8 4 0 Dark)"
    by (simp add: rr)
  have mc: "(0, 3) \<in> set (sortColumn_runs luma_exact PixelSorter greyBuffer 8 4 0 Dark)"
    by (simp add: cr)
  from run_local_permutation [where luma = luma_exact and th = PixelSorter and mode = Dark
      and pixels = greyBuffer and width = 8 and height = 4 and row = 0 and s = 4 and e = 7] l mr
  have 1: "mset (map (\<lambda>k. sortRow luma_exact PixelSorter greyBuffer 8 4 0 Dark ! nat (k + 0 * 8))
                  [4..7]) =
           mset (map (\<lambda>k. greyBuffer ! nat (k + 0 * 8)) [4..7])"
    "writtenOnly
       (runsAt (\<lambda>k. k + 0 * 8) (sortRow_runs luma_exact PixelSorter greyBuffer 8 4 0 Dark))
       greyBuffer (sortRow luma_exact PixelSorter greyBuffer 8 4 0 Dark)"
    by simp_all
  from run_local_permutation [where luma = luma_exact and th = PixelSorter and mode = Dark
      and pixels = greyBuffer and width = 8 and height = 4 and column = 0 and s = 0 and e = 3]
    l mc
  have 2: "mset (map (\<lambda>k. sortColumn luma_exact PixelSorter greyBuffer 8 4 0 Dark !
                          nat (0 + k * 8)) [0..3]) =
           mset (map (\<lambda>k. greyBuffer ! nat (0 + k * 8)) [0..3])"
    "writtenOnly
       (runsAt (\<lambda>k. 0 + k * 8) (sortColumn_runs luma_exact PixelSorter greyBuffer 8 4 0 Dark))
       greyBuffer (sortColumn luma_exact PixelSorter greyBuffer 8 4 0 Dark)"
    by simp_all
  from l rr r cr c 1 2 show ?thesis by simp
qed

section \<open>What a scanline pass and the two phases keep\<close>

lemma sortRow_loop_invariant:
  assumes "P pixels" "0 \<le> x" "x \<le> xEnd + 1"
    and "\<And>p a len. P p \<Longrightarrow> 0 \<le> a \<Longrightarrow> a + len \<le> width - 1 \<Longrightarrow> 1 < len \<Longrightarrow>
           P (sortRun (\<lambda>i. a + i + row * width) p len)"
  shows "P (sortRow_loop luma th pixels width height row mode x xEnd)"
  using assms
proof (induction luma th pixels width height row mode x xEnd rule: sortRow_loop.induct)
  case (1 luma th pixels width height row mode x xEnd)
  show ?case
  proof (cases "xEnd < width - 1")
    case False
    then show ?thesis using "1.prems"(1) by (subst sortRow_loop.simps) simp
  next
    case running: True
    obtain x1 xEnd1 where sc: "scanRow luma th mode pixels width x row = (x1, xEnd1)"
      by force
    show ?thesis
    proof (cases "x1 < 0")
      case True
      then show ?thesis
        using "1.prems"(1) running sc by (subst sortRow_loop.simps) simp
    next
      case False
      have "x < width" using running "1.prems"(3) by simp
      with scanRow_bounds [OF sc "1.prems"(2)] False
      have b: "x \<le> x1" "x1 \<le> xEnd1" "xEnd1 \<le> width - 1" by simp_all
      let ?p = "sortRun (\<lambda>i. x1 + i + row * width) pixels (xEnd1 - x1)"
      have P': "P ?p"
      proof (cases "1 < xEnd1 - x1")
        case True
        with "1.prems"(4) [OF "1.prems"(1), of x1 "xEnd1 - x1"] False b show ?thesis by simp
      next
        case False
        then show ?thesis using "1.prems"(1) by (simp add: sortRun_short)
      qed
      have "P (sortRow_loop luma th ?p width height row mode (xEnd1 + 1) xEnd1)"
        using False b "1.prems"(2)
        by (intro "1.IH" [OF running sc [symmetric] False P'] "1.prems"(4)) simp_all
      then show ?thesis
        using running sc False by (subst sortRow_loop.simps) simp
    qed
  qed
qed

lemma sortColumn_loop_invariant:
  assumes "P pixels" "0 \<le> y" "y \<le> yEnd + 1"
    and "\<And>p a len. P p \<Longrightarrow> 0 \<le> a \<Longrightarrow> a + len \<le> height - 1 \<Longrightarrow> 1 < len \<Longrightarrow>
           P (sortRun (\<lambda>i. column + (a + i) * width) p len)"
  shows "P (sortColumn_loop luma th pixels width height column mode y yEnd)"
  using assms
proof (induction luma th pixels width height column mode y yEnd rule: sortColumn_loop.induct)
  case (1 luma th pixels width height column mode y yEnd)
  show ?case
  proof (cases "yEnd < height - 1")
    case False
    then show ?thesis using "1.prems"(1) by (subst sortColumn_loop.simps) simp
  next
    case running: True
    obtain y1 yEnd1 where
      sc: "scanColumn luma th mode pixels width height column y = (y1, yEnd1)"
      by force
    show ?thesis
    proof (cases "y1 < 0")
      case True
      then show ?thesis
        using "1.prems"(1) running sc by (subst sortColumn_loop.simps) simp
    next
      case False
      have "y < height" using running "1.prems"(3) by simp
      with scanColumn_bounds [OF sc "1.prems"(2)] False
      have b: "y \<le> y1" "y1 \<le> yEnd1" "yEnd1 \<le> height - 1" by simp_all
      let ?p = "sortRun (\<lambda>i. column + (y1 + i) * width) pixels (yEnd1 - y1)"
      have P': "P ?p"
      proof (cases "1 < yEnd1 - y1")
        case True
        with "1.prems"(4) [OF "1.prems"(1), of y1 "yEnd1 - y1"] False b show ?thesis by simp
      next
        case False
        then show ?thesis using "1.prems"(1) by (simp add: sortRun_short)
      qed
      have "P (sortColumn_loop luma th ?p width height column mode (yEnd1 + 1) yEnd1)"
        using False b "1.prems"(2)
        by (intro "1.IH" [OF running sc [symmetric] False P'] "1.prems"(4)) simp_all
      then show ?thesis
        using running sc False by (subst sortColumn_loop.simps) simp
    qed
  qed
qed

lemma index_unique:
  assumes "0 \<le> (a::int)" "a < w" "0 \<le> b" "b < w" "a + k * w = b + y * w"
  shows "a = b \<and> k = y"
proof -
  have "(a + k * w) mod w = a"
    using assms(1,2) by simp
  moreover have "(b + y * w) mod w = b"
    using assms(3,4) by simp
  ultimately have ab: "a = b" using assms(5) by metis
  with assms have "k * w = y * w" "w \<noteq> 0" by auto
  with ab show ?thesis by simp
qed

lemma foldl_invariant:
  "P a \<Longrightarrow> (\<And>a x. P a \<Longrightarrow> x \<in> set xs \<Longrightarrow> P (f a x)) \<Longrightarrow> P (foldl f a xs)"
  by (induction xs arbitrary: a) simp_all

text \<open>
  What a scanline's pass may do to the buffer \<open>p0\<close>: keep its length and its multiset,
  and change elements only at the positions \<open>touched\<close>.
\<close>

definition rearranged :: "(int \<Rightarrow> bool) \<Rightarrow> int32array \<Rightarrow> int32array \<Rightarrow> bool" where
  "rearranged touched p0 p \<longleftrightarrow>
     length p = length p0 \<and> mset p = mset p0 \<and>
     (\<forall>j<length p0. \<not> touched (int j) \<longrightarrow> p ! j = p0 ! j)"

lemma rearranged_refl: "rearranged touched p p"
  by (simp add: rearranged_def)

lemma rearranged_sortRun:
  assumes "rearranged touched p0 p"
    and "\<And>i. 0 \<le> i \<Longrightarrow> i < len \<Longrightarrow> 0 \<le> idx i \<and> idx i < int (length p)"
    and "inj_on idx {0..<len}"
    and "\<And>i. 0 \<le> i \<Longrightarrow> i < len \<Longrightarrow> touched (idx i)"
  shows "rearranged touched p0 (sortRun idx p len)"
  unfolding rearranged_def
proof (intro conjI allI impI)
  show "length (sortRun idx p len) = length p0"
    using assms(1) by (simp add: rearranged_def)
  show "mset (sortRun idx p len) = mset p0"
    using assms(1) sortRun_mset [OF assms(2,3)] by (simp add: rearranged_def)
  show "sortRun idx p len ! j = p0 ! j" if "j < length p0" "\<not> touched (int j)" for j
  proof -
    have "sortRun idx p len ! j = p ! j"
    proof (rule sortRun_unchanged)
      show "j < length p" using that assms(1) by (simp add: rearranged_def)
      show "idx i \<noteq> int j" if "0 \<le> i" "i < len" for i
        using assms(4) [OF that] \<open>\<not> touched (int j)\<close> by auto
    qed
    with that assms(1) show ?thesis by (simp add: rearranged_def)
  qed
qed

lemma sortRow_rearranged:
  assumes "int (length pixels) = width * height" "0 \<le> row" "row < height"
  shows "rearranged (\<lambda>j. \<exists>k. 0 \<le> k \<and> k < width - 1 \<and> j = k + row * width) pixels
           (sortRow luma th pixels width height row mode)"
  unfolding sortRow_def
proof (rule sortRow_loop_invariant)
  let ?t = "\<lambda>j. \<exists>k. 0 \<le> k \<and> k < width - 1 \<and> j = k + row * width"
  show "rearranged ?t pixels pixels" by (rule rearranged_refl)
  show "rearranged ?t pixels (sortRun (\<lambda>i. a + i + row * width) p len)"
    if p: "rearranged ?t pixels p" and a: "0 \<le> a" "a + len \<le> width - 1" "1 < len" for p a len
  proof (rule rearranged_sortRun [OF p])
    have l: "int (length p) = width * height"
      using p assms(1) by (simp add: rearranged_def)
    have al: "a + len \<le> width" using a by simp
    show "0 \<le> a + i + row * width \<and> a + i + row * width < int (length p)"
      if "0 \<le> i" "i < len" for i
      using row_index(1) [OF a(1) al assms(2,3) l that] .
    show "inj_on (\<lambda>i. a + i + row * width) {0..<len}"
      using row_index(2) [OF a(1) al assms(2,3) l] .
    show "?t (a + i + row * width)" if "0 \<le> i" "i < len" for i
      using that a by (intro exI [of _ "a + i"]) simp
  qed
qed simp_all

lemma sortColumn_rearranged:
  assumes "int (length pixels) = width * height" "0 \<le> column" "column < width"
  shows "rearranged (\<lambda>j. \<exists>k. 0 \<le> k \<and> k < height - 1 \<and> j = column + k * width) pixels
           (sortColumn luma th pixels width height column mode)"
  unfolding sortColumn_def
proof (rule sortColumn_loop_invariant)
  let ?t = "\<lambda>j. \<exists>k. 0 \<le> k \<and> k < height - 1 \<and> j = column + k * width"
  show "rearranged ?t pixels pixels" by (rule rearranged_refl)
  show "rearranged ?t pixels (sortRun (\<lambda>i. column + (a + i) * width) p len)"
    if p: "rearranged ?t pixels p" and a: "0 \<le> a" "a + len \<le> height - 1" "1 < len" for p a len
  proof (rule rearranged_sortRun [OF p])
    have l: "int (length p) = width * height"
      using p assms(1) by (simp add: rearranged_def)
    have al: "a + len \<le> height" using a by simp
    show "0 \<le> column + (a + i) * width \<and> column + (a + i) * width < int (length p)"
      if "0 \<le> i" "i < len" for i
      using column_index(1) [OF a(1) al assms(2,3) l that] .
    show "inj_on (\<lambda>i. column + (a + i) * width) {0..<len}"
      using column_index(2) [OF a(1) al assms(2,3) l] .
    show "?t (column + (a + i) * width)" if "0 \<le> i" "i < len" for i
      using that a by (intro exI [of _ "a + i"]) simp
  qed
qed simp_all

lemma rearranged_trans:
  assumes "rearranged t p0 p1" "rearranged t' p1 p2" "\<And>j. t' j \<Longrightarrow> t j"
  shows "rearranged t p0 p2"
  using assms unfolding rearranged_def by (metis (no_types, lifting))

text \<open>The positions that \<open>sortImage\<close> can write: neither in the last column nor in the last row.\<close>

definition inner :: "int \<Rightarrow> int \<Rightarrow> int \<Rightarrow> bool" where
  "inner width height j \<longleftrightarrow>
     (\<exists>x y. 0 \<le> x \<and> x < width - 1 \<and> 0 \<le> y \<and> y < height - 1 \<and> j = x + y * width)"

lemma sortedPixels_rearranged:
  assumes "int (length rgbPixels) = width * height"
  shows "rearranged (inner width height) rgbPixels
           (sortedPixels luma th rgbPixels width height mode)"
proof -
  let ?Q = "rearranged (inner width height) rgbPixels"
  let ?cols = "foldl (\<lambda>pixels column. sortColumn luma th pixels width height column mode)
                 rgbPixels [0..width - 2]"
  have cols: "?Q ?cols"
  proof (rule foldl_invariant [where P = ?Q])
    show "?Q rgbPixels" by (rule rearranged_refl)
    show "?Q (sortColumn luma th p width height c mode)"
      if p: "?Q p" and c: "c \<in> set [0..width - 2]" for p c
    proof (rule rearranged_trans [OF p])
      have l: "int (length p) = width * height"
        using p assms by (simp add: rearranged_def)
      from c have c': "0 \<le> c" "c < width" "c < width - 1" by auto
      show "rearranged (\<lambda>j. \<exists>k. 0 \<le> k \<and> k < height - 1 \<and> j = c + k * width) p
              (sortColumn luma th p width height c mode)"
        using l c' by (intro sortColumn_rearranged) 
      show "inner width height j" if "\<exists>k. 0 \<le> k \<and> k < height - 1 \<and> j = c + k * width" for j
        using that c' unfolding inner_def by blast
    qed
  qed
  have "?Q (foldl (\<lambda>pixels row. sortRow luma th pixels width height row mode)
              ?cols [0..height - 2])"
  proof (rule foldl_invariant [where P = ?Q])
    show "?Q ?cols" by (rule cols)
    show "?Q (sortRow luma th p width height r mode)"
      if p: "?Q p" and r: "r \<in> set [0..height - 2]" for p r
    proof (rule rearranged_trans [OF p])
      have l: "int (length p) = width * height"
        using p assms by (simp add: rearranged_def)
      from r have r': "0 \<le> r" "r < height" "r < height - 1" by auto
      show "rearranged (\<lambda>j. \<exists>k. 0 \<le> k \<and> k < width - 1 \<and> j = k + r * width) p
              (sortRow luma th p width height r mode)"
        using l r' by (intro sortRow_rearranged)
      show "inner width height j" if "\<exists>k. 0 \<le> k \<and> k < width - 1 \<and> j = k + r * width" for j
        using that r' unfolding inner_def by blast
    qed
  qed
  then show ?thesis by (simp add: sortedPixels_def Let_def)
qed

section \<open>The whole image\<close>

lemma ff_mask: "(0xFF :: 32 word) = mask 8"
  by (simp add: mask_eq_exp_minus_1)

lemma opaque_mask: "(0xFF000000 :: 32 word) = push_bit 24 (mask 8)"
  by (simp add: mask_eq_exp_minus_1)

lemma unpack_red:
  "ucast (signed_drop_bit 16
      (packRGB (ucast (r :: 8 word)) (ucast (g :: 8 word)) (ucast (b :: 8 word))) AND 0xFF) = r"
  unfolding packRGB_def ff_mask opaque_mask
  by (rule bit_word_eqI) (auto simp: bit_simps dest: bit_imp_le_length)

lemma unpack_green:
  "ucast (signed_drop_bit 8
      (packRGB (ucast (r :: 8 word)) (ucast (g :: 8 word)) (ucast (b :: 8 word))) AND 0xFF) = g"
  unfolding packRGB_def ff_mask opaque_mask
  by (rule bit_word_eqI) (auto simp: bit_simps dest: bit_imp_le_length)

lemma unpack_blue:
  "ucast (packRGB (ucast (r :: 8 word)) (ucast (g :: 8 word)) (ucast (b :: 8 word)) AND 0xFF) = b"
  unfolding packRGB_def ff_mask opaque_mask
  by (rule bit_word_eqI) (auto simp: bit_simps dest: bit_imp_le_length)

lemma convertToRGB_wellFormed:
  assumes "0 \<le> width * height" "int (length pixels) = width * height * 4"
  shows "\<exists>rgb. convertToRGB maxLength pixels width height = Inr rgb \<and>
           int (length rgb) = width * height \<and>
           (\<forall>i<length rgb. rgb ! i =
              packRGB (ucast (pixels ! (i * 4))) (ucast (pixels ! (i * 4 + 1)))
                (ucast (pixels ! (i * 4 + 2))))"
proof -
  let ?rgb = "map (\<lambda>i. let r = byteOrZero (getElem pixels (int i * 4));
                             g = byteOrZero (getElem pixels (int i * 4 + 1));
                             b = byteOrZero (getElem pixels (int i * 4 + 2))
                         in packRGB r g b) [0..<nat (width * height)]"
  have "convertToRGB maxLength pixels width height = Inr ?rgb"
    using assms by (simp add: convertToRGB_def)
  moreover have "int (length ?rgb) = width * height"
    using assms by simp
  moreover have "?rgb ! i = packRGB (ucast (pixels ! (i * 4))) (ucast (pixels ! (i * 4 + 1)))
                (ucast (pixels ! (i * 4 + 2)))" if "i < length ?rgb" for i
  proof -
    have "int i < width * height" using that by simp
    then have "int i * 4 + 3 < int (length pixels)" using assms by simp
    then show ?thesis
      using that by (simp add: getElem_def byteOrZero_def nat_add_distrib nat_mult_distrib)
  qed
  ultimately show ?thesis by blast
qed

lemma convertToRGBA_loop:
  fixes rgb :: int32array and orig :: u8array
  defines "out \<equiv> \<lambda>m. foldl (\<lambda>rgbaPixels i.
              let color = rgb ! i
              in rgbaPixels
                   [i * 4 := ucast (signed_drop_bit 16 color AND 0xFF),
                    i * 4 + 1 := ucast (signed_drop_bit 8 color AND 0xFF),
                    i * 4 + 2 := ucast (color AND 0xFF),
                    i * 4 + 3 := (case getElem orig (int i * 4 + 3) of
                                    None \<Rightarrow> 0 | Some a \<Rightarrow> a)])
       (replicate (length orig) 0) [0..<m]"
  assumes "m \<le> length rgb" "length orig = 4 * length rgb"
  shows "length (out m) = length orig \<and>
     (\<forall>i<m. out m ! (i * 4) = ucast (signed_drop_bit 16 (rgb ! i) AND 0xFF) \<and>
       out m ! (i * 4 + 1) = ucast (signed_drop_bit 8 (rgb ! i) AND 0xFF) \<and>
       out m ! (i * 4 + 2) = ucast (rgb ! i AND 0xFF) \<and>
       out m ! (i * 4 + 3) = orig ! (i * 4 + 3))"
  using assms(2)
proof (induction m)
  case 0
  then show ?case by (simp add: out_def)
next
  case (Suc m)
  then have IH: "length (out m) = length orig"
    "\<And>i. i < m \<Longrightarrow> out m ! (i * 4) = ucast (signed_drop_bit 16 (rgb ! i) AND 0xFF) \<and>
       out m ! (i * 4 + 1) = ucast (signed_drop_bit 8 (rgb ! i) AND 0xFF) \<and>
       out m ! (i * 4 + 2) = ucast (rgb ! i AND 0xFF) \<and>
       out m ! (i * 4 + 3) = orig ! (i * 4 + 3)"
    by simp_all
  have m: "m * 4 + 3 < length orig" using Suc.prems assms(3) by simp
  then have a: "getElem orig (int m * 4 + 3) = Some (orig ! (m * 4 + 3))"
    by (simp add: getElem_def nat_add_distrib nat_mult_distrib)
  have step: "out (Suc m) =
      (let color = rgb ! m
       in (out m)
            [m * 4 := ucast (signed_drop_bit 16 color AND 0xFF),
             m * 4 + 1 := ucast (signed_drop_bit 8 color AND 0xFF),
             m * 4 + 2 := ucast (color AND 0xFF),
             m * 4 + 3 := (case getElem orig (int m * 4 + 3) of None \<Rightarrow> 0 | Some a \<Rightarrow> a)])"
    by (simp add: out_def)
  show ?case
    unfolding step using IH m a
    by (auto simp: Let_def nth_list_update less_Suc_eq)
qed

lemma convertToRGBA_nth:
  assumes "length orig = 4 * length rgb"
  shows "length (convertToRGBA rgb orig) = length orig"
    and "i < length rgb \<Longrightarrow>
         convertToRGBA rgb orig ! (i * 4) = ucast (signed_drop_bit 16 (rgb ! i) AND 0xFF) \<and>
         convertToRGBA rgb orig ! (i * 4 + 1) = ucast (signed_drop_bit 8 (rgb ! i) AND 0xFF) \<and>
         convertToRGBA rgb orig ! (i * 4 + 2) = ucast (rgb ! i AND 0xFF) \<and>
         convertToRGBA rgb orig ! (i * 4 + 3) = orig ! (i * 4 + 3)"
  using convertToRGBA_loop [of "length rgb" rgb orig] assms
  by (simp_all add: convertToRGBA_def)

lemma new_ImageData_wellFormed:
  assumes "1 \<le> w" "w < 2 ^ 32" "1 \<le> h" "h < 2 ^ 32" "int (length d) = w * h * 4"
  shows "new_ImageData d w h = Inr \<lparr>iwidth = w, iheight = h, idata = d\<rparr>"
proof -
  have "0 < w * h" using assms by simp
  then show ?thesis
    using assms by (simp add: new_ImageData_def Let_def)
qed

text \<open>The packed working buffer of an image, as \<open>convertToRGB\<close> fills it.\<close>

definition packedPixels :: "image_data \<Rightarrow> int32array" where
  "packedPixels imageData =
     map (\<lambda>i. packRGB (ucast (idata imageData ! (i * 4))) (ucast (idata imageData ! (i * 4 + 1)))
                (ucast (idata imageData ! (i * 4 + 2))))
       [0..<nat (iwidth imageData * iheight imageData)]"

lemma convertToRGB_packedPixels:
  assumes "wellFormed imageData"
  shows "convertToRGB maxLength (idata imageData) (iwidth imageData) (iheight imageData) =
           Inr (packedPixels imageData)"
proof -
  have pos: "0 \<le> iwidth imageData * iheight imageData"
    using assms by (simp add: wellFormed_def)
  from convertToRGB_wellFormed [OF pos, of "idata imageData" maxLength] assms
  obtain rgb where
    rgb: "convertToRGB maxLength (idata imageData) (iwidth imageData) (iheight imageData) =
            Inr rgb"
    "int (length rgb) = iwidth imageData * iheight imageData"
    "\<forall>i<length rgb. rgb ! i =
       packRGB (ucast (idata imageData ! (i * 4))) (ucast (idata imageData ! (i * 4 + 1)))
         (ucast (idata imageData ! (i * 4 + 2)))"
    by (auto simp: wellFormed_def)
  have "rgb = packedPixels imageData"
    using rgb(2,3) by (intro nth_equalityI) (auto simp: packedPixels_def)
  with rgb(1) show ?thesis by simp
qed

lemma sortImage_wellFormed:
  assumes "wellFormed imageData"
  shows "sortImage maxLength luma th imageData mode =
           Inr \<lparr>iwidth = iwidth imageData, iheight = iheight imageData,
                idata = convertToRGBA
                   (sortedPixels luma th (packedPixels imageData) (iwidth imageData)
                      (iheight imageData) mode)
                   (idata imageData)\<rparr>"
proof -
  let ?w = "iwidth imageData" and ?h = "iheight imageData"
  let ?q = "sortedPixels luma th (packedPixels imageData) ?w ?h mode"
  have lp: "int (length (packedPixels imageData)) = ?w * ?h"
    using assms by (simp add: packedPixels_def wellFormed_def)
  have "length ?q = length (packedPixels imageData)"
    using sortedPixels_rearranged [OF lp] by (simp add: rearranged_def)
  with lp assms have "length (idata imageData) = 4 * length ?q"
    by (simp add: wellFormed_def)
  then have "length (convertToRGBA ?q (idata imageData)) = length (idata imageData)"
    by (rule convertToRGBA_nth(1))
  with assms have "new_ImageData (convertToRGBA ?q (idata imageData)) ?w ?h =
      Inr \<lparr>iwidth = ?w, iheight = ?h, idata = convertToRGBA ?q (idata imageData)\<rparr>"
    by (intro new_ImageData_wellFormed) (simp_all add: wellFormed_def)
  then show ?thesis
    using convertToRGB_packedPixels [OF assms, of maxLength]
    by (simp add: sortImage_def Let_def)
qed

lemma sorted_lengths:
  assumes "wellFormed imageData"
  shows "int (length (packedPixels imageData)) = iwidth imageData * iheight imageData"
    and "length (sortedPixels luma th (packedPixels imageData) (iwidth imageData)
            (iheight imageData) mode) = length (packedPixels imageData)"
    and "length (idata imageData) =
         4 * length (sortedPixels luma th (packedPixels imageData) (iwidth imageData)
            (iheight imageData) mode)"
proof -
  show lp: "int (length (packedPixels imageData)) = iwidth imageData * iheight imageData"
    using assms by (simp add: packedPixels_def wellFormed_def)
  show lq: "length (sortedPixels luma th (packedPixels imageData) (iwidth imageData)
            (iheight imageData) mode) = length (packedPixels imageData)"
    using sortedPixels_rearranged [OF lp] by (simp add: rearranged_def)
  show "length (idata imageData) =
         4 * length (sortedPixels luma th (packedPixels imageData) (iwidth imageData)
            (iheight imageData) mode)"
    using lp lq assms by (simp add: wellFormed_def)
qed

lemma border_not_inner:
  assumes "0 \<le> x" "x < width" "0 \<le> y" "y < height" "x = width - 1 \<or> y = height - 1"
  shows "\<not> inner width height (x + y * width)"
proof
  assume "inner width height (x + y * width)"
  then obtain x' y' where i: "0 \<le> x'" "x' < width - 1" "0 \<le> y'" "y' < height - 1"
    "x + y * width = x' + y' * width"
    unfolding inner_def by blast
  from i(2) have "x' < width" by simp
  from index_unique [OF assms(1,2) i(1) this i(5)] have "x = x'" "y = y'" by simp_all
  with i assms(5) show False by auto
qed

lemma length_convertToRGBA: "length (convertToRGBA rgb orig) = length orig"
  unfolding convertToRGBA_def
  by (rule foldl_invariant [where P = "\<lambda>out. length out = length orig"]) (simp_all add: Let_def)

lemma new_ImageData_mismatch:
  assumes "1 \<le> w" "w < 2 ^ 32" "1 \<le> h" "h < 2 ^ 32" "int (length d) \<noteq> w * h * 4"
  shows "new_ImageData d w h = Inl InvalidStateError \<or> new_ImageData d w h = Inl IndexSizeError"
proof -
  have wm: "w mod 2 ^ 32 = w" "h mod 2 ^ 32 = h" using assms by simp_all
  have False
    if "int (length d) mod 4 = 0" "(int (length d) div 4) mod w = 0"
      "h = (int (length d) div 4) div w"
  proof -
    from that(2,3) have "int (length d) div 4 = w * h" by auto
    with that(1) have "int (length d) = w * h * 4" by auto
    with assms(5) show False by simp
  qed
  then show ?thesis
    unfolding new_ImageData_def Let_def wm by auto
qed

text \<open>
  The image of the examples: in White mode with the default thresholds the first column is
  one run from row 0 to row 2, so its rows 0 and 1 are sorted, and nothing else moves.
\<close>

definition exampleImage :: image_data where
  "exampleImage = \<lparr>iwidth = 3, iheight = 3, idata =
     [200, 0, 0, 255,   50, 60, 70, 128,   9, 9, 9, 7,
      100, 0, 0, 10,    40, 60, 70, 0,     8, 8, 8, 6,
      90, 0, 0, 1,      30, 60, 70, 2,     7, 7, 7, 5]\<rparr>"

lemma wellFormed_exampleImage: "wellFormed exampleImage"
  by (simp add: wellFormed_def exampleImage_def)

lemma sortImage_exampleImage:
  "sortImage exampleMaxLength luma_exact PixelSorter exampleImage White = Inr \<lparr>iwidth = 3, iheight = 3, idata =
     [100, 0, 0, 255,   50, 60, 70, 128,   9, 9, 9, 7,
      200, 0, 0, 10,    40, 60, 70, 0,     8, 8, 8, 6,
      90, 0, 0, 1,      30, 60, 70, 2,     7, 7, 7, 5]\<rparr>"
  unfolding exampleImage_def by code_simp

text \<open>
  Claim C3, as the code has it. \<open>sortImage\<close> checks nothing before it works, and it has
  no error of its own. On a well-formed buffer no error is raised. When \<open>width * height\<close>
  is negative, or above the limit on the length of typed arrays while the data array has
  fewer than \<open>width * height * 4\<close> bytes, the allocation of the working buffer fails (a
  \<open>RangeError\<close>), before any pixel is read. A buffer with dimensions in range whose data
  length is not \<open>width * height * 4\<close>, and whose working buffer is allocated, is packed
  into a working buffer of \<open>width * height\<close> elements and sorted like any other; the only
  error is the one that the \<open>ImageData\<close> constructor raises on the result.
\<close>

theorem sortImage_validation:
  "(wellFormed imageData \<longrightarrow> (\<exists>out. sortImage maxLength luma th imageData mode = Inr out)) \<and>
   (iwidth imageData * iheight imageData < 0 \<longrightarrow>
      sortImage maxLength luma th imageData mode = Inl RangeError) \<and>
   (lengthLimit maxLength < iwidth imageData * iheight imageData \<and>
    int (length (idata imageData)) < iwidth imageData * iheight imageData * 4 \<longrightarrow>
      sortImage maxLength luma th imageData mode = Inl RangeError) \<and>
   (1 \<le> iwidth imageData \<and> iwidth imageData < 2 ^ 32 \<and>
    1 \<le> iheight imageData \<and> iheight imageData < 2 ^ 32 \<and>
    int (length (idata imageData)) \<noteq> iwidth imageData * iheight imageData * 4 \<and>
    (iwidth imageData * iheight imageData \<le> lengthLimit maxLength \<or>
     iwidth imageData * iheight imageData * 4 \<le> int (length (idata imageData))) \<longrightarrow>
      (\<exists>rgbPixels.
          convertToRGB maxLength (idata imageData) (iwidth imageData) (iheight imageData) =
            Inr rgbPixels \<and>
          int (length rgbPixels) = iwidth imageData * iheight imageData \<and>
          sortImage maxLength luma th imageData mode =
            new_ImageData
              (convertToRGBA
                 (sortedPixels luma th rgbPixels (iwidth imageData) (iheight imageData) mode)
                 (idata imageData))
              (iwidth imageData) (iheight imageData)) \<and>
      (sortImage maxLength luma th imageData mode = Inl InvalidStateError \<or>
       sortImage maxLength luma th imageData mode = Inl IndexSizeError))"
proof (intro conjI impI)
  assume "wellFormed imageData"
  then show "\<exists>out. sortImage maxLength luma th imageData mode = Inr out"
    using sortImage_wellFormed [of imageData maxLength luma th mode] by simp
next
  assume "iwidth imageData * iheight imageData < 0"
  then show "sortImage maxLength luma th imageData mode = Inl RangeError"
    by (simp add: sortImage_def convertToRGB_def Let_def)
next
  assume "lengthLimit maxLength < iwidth imageData * iheight imageData \<and>
    int (length (idata imageData)) < iwidth imageData * iheight imageData * 4"
  then show "sortImage maxLength luma th imageData mode = Inl RangeError"
    by (simp add: sortImage_def convertToRGB_def Let_def)
next
  assume a: "1 \<le> iwidth imageData \<and> iwidth imageData < 2 ^ 32 \<and>
    1 \<le> iheight imageData \<and> iheight imageData < 2 ^ 32 \<and>
    int (length (idata imageData)) \<noteq> iwidth imageData * iheight imageData * 4 \<and>
    (iwidth imageData * iheight imageData \<le> lengthLimit maxLength \<or>
     iwidth imageData * iheight imageData * 4 \<le> int (length (idata imageData)))"
  then have pos: "\<not> iwidth imageData * iheight imageData < 0"
    by (simp add: not_less)
  from a have fits: "\<not> (lengthLimit maxLength < iwidth imageData * iheight imageData \<and>
      int (length (idata imageData)) < iwidth imageData * iheight imageData * 4)"
    by linarith
  obtain rgb where
    rgb: "convertToRGB maxLength (idata imageData) (iwidth imageData) (iheight imageData) =
            Inr rgb"
      "int (length rgb) = iwidth imageData * iheight imageData"
    using pos fits by (simp add: convertToRGB_def)
  let ?d = "convertToRGBA (sortedPixels luma th rgb (iwidth imageData) (iheight imageData) mode)
              (idata imageData)"
  have s: "sortImage maxLength luma th imageData mode =
      new_ImageData ?d (iwidth imageData) (iheight imageData)"
    using rgb(1) by (simp add: sortImage_def Let_def)
  with rgb show "\<exists>rgbPixels.
          convertToRGB maxLength (idata imageData) (iwidth imageData) (iheight imageData) =
            Inr rgbPixels \<and>
          int (length rgbPixels) = iwidth imageData * iheight imageData \<and>
          sortImage maxLength luma th imageData mode =
            new_ImageData
              (convertToRGBA
                 (sortedPixels luma th rgbPixels (iwidth imageData) (iheight imageData) mode)
                 (idata imageData))
              (iwidth imageData) (iheight imageData)"
    by blast
  have "int (length ?d) \<noteq> iwidth imageData * iheight imageData * 4"
    using a by (simp add: length_convertToRGBA)
  with a have "new_ImageData ?d (iwidth imageData) (iheight imageData) = Inl InvalidStateError \<or>
      new_ImageData ?d (iwidth imageData) (iheight imageData) = Inl IndexSizeError"
    by (intro new_ImageData_mismatch) simp_all
  then show "sortImage maxLength luma th imageData mode = Inl InvalidStateError \<or>
       sortImage maxLength luma th imageData mode = Inl IndexSizeError"
    using s by simp
qed

theorem sortImage_validation_witness:
  "wellFormed exampleImage \<and>
   (\<exists>out. sortImage exampleMaxLength luma_exact PixelSorter exampleImage White = Inr out) \<and>
   (- 1) * (1::int) < 0 \<and>
   sortImage exampleMaxLength luma_exact PixelSorter
     \<lparr>iwidth = - 1, iheight = 1, idata = [1, 2, 3, 4]\<rparr> White = Inl RangeError \<and>
   lengthLimit exampleMaxLength < 2 ^ 27 * 2 ^ 27 \<and>
   int (length [1, 2, 3, 4 :: 8 word]) < 2 ^ 27 * 2 ^ 27 * 4 \<and>
   sortImage exampleMaxLength luma_exact PixelSorter
     \<lparr>iwidth = 2 ^ 27, iheight = 2 ^ 27, idata = [1, 2, 3, 4]\<rparr> White = Inl RangeError \<and>
   int (length [1, 2, 3, 4 :: 8 word]) \<noteq> 2 * 2 * 4 \<and> 2 * 2 \<le> lengthLimit exampleMaxLength \<and>
   (sortImage exampleMaxLength luma_exact PixelSorter
      \<lparr>iwidth = 2, iheight = 2, idata = [1, 2, 3, 4]\<rparr> White = Inl InvalidStateError \<or>
    sortImage exampleMaxLength luma_exact PixelSorter
      \<lparr>iwidth = 2, iheight = 2, idata = [1, 2, 3, 4]\<rparr> White = Inl IndexSizeError)"
  using sortImage_validation [of exampleImage exampleMaxLength luma_exact PixelSorter White]
    sortImage_validation [of "\<lparr>iwidth = - 1, iheight = 1, idata = [1, 2, 3, 4]\<rparr>"
      exampleMaxLength luma_exact PixelSorter White]
    sortImage_validation [of "\<lparr>iwidth = 2 ^ 27, iheight = 2 ^ 27, idata = [1, 2, 3, 4]\<rparr>"
      exampleMaxLength luma_exact PixelSorter White]
    sortImage_validation [of "\<lparr>iwidth = 2, iheight = 2, idata = [1, 2, 3, 4]\<rparr>"
      exampleMaxLength luma_exact PixelSorter White]
    wellFormed_exampleImage
  by (simp add: exampleMaxLength_def lengthLimit_def)

text \<open>
  Claim C3 as the specification words it fails. A 1 by 1 image without data is packed into
  a working buffer (the missing bytes read as 0) before anything is raised, and the error
  is the constructor's at the very end. The example image without its last byte is sorted
  like the whole one, and then refused by the constructor.
\<close>

theorem sortImage_validation_counterexample:
  "\<not> wellFormed \<lparr>iwidth = 1, iheight = 1, idata = []\<rparr> \<and>
   convertToRGB exampleMaxLength [] 1 1 = Inr [0xFF000000] \<and>
   sortImage exampleMaxLength luma_exact PixelSorter \<lparr>iwidth = 1, iheight = 1, idata = []\<rparr>
     White = Inl InvalidStateError \<and>
   \<not> wellFormed (exampleImage\<lparr>idata := butlast (idata exampleImage)\<rparr>) \<and>
   sortedPixels luma_exact PixelSorter
     [- 3670016, - 13484986, - 16185079, - 10223616, - 14140346, - 16250872,
      - 10878976, - 14795706, - 16316665] 3 3 White =
     [- 10223616, - 13484986, - 16185079, - 3670016, - 14140346, - 16250872,
      - 10878976, - 14795706, - 16316665] \<and>
   convertToRGB exampleMaxLength (butlast (idata exampleImage)) 3 3 =
     Inr [- 3670016, - 13484986, - 16185079, - 10223616, - 14140346, - 16250872,
          - 10878976, - 14795706, - 16316665] \<and>
   sortImage exampleMaxLength luma_exact PixelSorter
     (exampleImage\<lparr>idata := butlast (idata exampleImage)\<rparr>) White = Inl InvalidStateError"
  unfolding exampleImage_def wellFormed_def by code_simp

text \<open>
  Claim C5. On every well-formed buffer, in every mode and with every threshold,
  \<open>sortImage\<close> returns a buffer of the same dimensions in which the alpha byte of every
  pixel is the alpha byte of the input at the same position.
\<close>

theorem alpha_preserved:
  assumes "wellFormed imageData"
  shows "\<exists>out. sortImage maxLength luma th imageData mode = Inr out \<and>
           iwidth out = iwidth imageData \<and> iheight out = iheight imageData \<and>
           length (idata out) = length (idata imageData) \<and>
           (\<forall>i. int i < iwidth imageData * iheight imageData \<longrightarrow>
                idata out ! (i * 4 + 3) = idata imageData ! (i * 4 + 3))"
proof -
  let ?q = "sortedPixels luma th (packedPixels imageData) (iwidth imageData)
              (iheight imageData) mode"
  note l = sorted_lengths [OF assms]
  have "convertToRGBA ?q (idata imageData) ! (i * 4 + 3) = idata imageData ! (i * 4 + 3)"
    if "int i < iwidth imageData * iheight imageData" for i
  proof -
    have "i < length ?q" using that l(1,2) by simp
    with convertToRGBA_nth(2) [OF l(3)] show ?thesis by blast
  qed
  then show ?thesis
    using sortImage_wellFormed [OF assms, of maxLength luma th mode]
      convertToRGBA_nth(1) [OF l(3)]
    by simp
qed

theorem alpha_preserved_witness:
  "wellFormed exampleImage \<and>
   (\<exists>out. sortImage exampleMaxLength luma_exact PixelSorter exampleImage White = Inr out \<and>
      iwidth out = iwidth exampleImage \<and> iheight out = iheight exampleImage \<and>
      length (idata out) = length (idata exampleImage) \<and>
      (\<forall>i. int i < iwidth exampleImage * iheight exampleImage \<longrightarrow>
           idata out ! (i * 4 + 3) = idata exampleImage ! (i * 4 + 3)))"
  using alpha_preserved [OF wellFormed_exampleImage,
      of exampleMaxLength luma_exact PixelSorter White]
    wellFormed_exampleImage
  by simp

text \<open>
  Claim C6. The scans and the loops of \<open>sortRow\<close> and \<open>sortColumn\<close> are total functions
  (their termination is proved where they are defined, for every buffer, threshold and
  mode), and on every well-formed buffer, the ones of width 1 or height 1 included,
  \<open>sortImage\<close> returns a well-formed buffer and no error.
\<close>

theorem sortImage_returns:
  assumes "wellFormed imageData"
  shows "\<exists>out. sortImage maxLength luma th imageData mode = Inr out \<and> wellFormed out"
proof -
  note l = sorted_lengths [OF assms]
  show ?thesis
    using sortImage_wellFormed [OF assms, of maxLength luma th mode]
      convertToRGBA_nth(1) [OF l(3)] assms
    by (simp add: wellFormed_def)
qed

theorem sortImage_returns_witness:
  "wellFormed \<lparr>iwidth = 1, iheight = 3, idata = [1, 2, 3, 4, 5, 6, 7, 8, 9, 10, 11, 12]\<rparr> \<and>
   (\<exists>out. sortImage exampleMaxLength luma_exact PixelSorter
            \<lparr>iwidth = 1, iheight = 3, idata = [1, 2, 3, 4, 5, 6, 7, 8, 9, 10, 11, 12]\<rparr> Dark =
          Inr out \<and> wellFormed out)"
proof -
  have wf: "wellFormed \<lparr>iwidth = 1, iheight = 3, idata = [1, 2, 3, 4, 5, 6, 7, 8, 9, 10, 11, 12]\<rparr>"
    by (simp add: wellFormed_def)
  from sortImage_returns [OF wf, of exampleMaxLength luma_exact PixelSorter Dark] wf
  show ?thesis
    by simp
qed

text \<open>An image of six pixels of one colour.\<close>

definition solidImage :: image_data where
  "solidImage = \<lparr>iwidth = 3, iheight = 2, idata =
     [10, 20, 30, 40,  10, 20, 30, 40,  10, 20, 30, 40,
      10, 20, 30, 40,  10, 20, 30, 40,  10, 20, 30, 40]\<rparr>"

text \<open>
  Claim C7. On every well-formed buffer whose pixels all have the same red, green, blue
  and alpha, in every mode and with every threshold, the output is the input.
\<close>

theorem solid_colour_unchanged:
  assumes "wellFormed imageData"
    and "\<forall>i. int i < iwidth imageData * iheight imageData \<longrightarrow>
           idata imageData ! (i * 4) = r \<and> idata imageData ! (i * 4 + 1) = g \<and>
           idata imageData ! (i * 4 + 2) = b \<and> idata imageData ! (i * 4 + 3) = a"
  shows "sortImage maxLength luma th imageData mode = Inr imageData"
proof -
  let ?w = "iwidth imageData" and ?h = "iheight imageData" and ?p = "packedPixels imageData"
  let ?q = "sortedPixels luma th ?p ?w ?h mode"
  let ?c = "packRGB (ucast r) (ucast g) (ucast b)"
  note l = sorted_lengths [OF assms(1)]
  have p: "set ?p \<subseteq> {?c}"
  proof
    fix v assume "v \<in> set ?p"
    then obtain i where i: "i < nat (?w * ?h)" and v: "v = packRGB (ucast (idata imageData ! (i * 4)))
        (ucast (idata imageData ! (i * 4 + 1))) (ucast (idata imageData ! (i * 4 + 2)))"
      by (auto simp: packedPixels_def)
    from i have "int i < ?w * ?h" by (simp add: zless_nat_eq_int_zless)
    with assms(2) v show "v \<in> {?c}" by simp
  qed
  have "mset ?q = mset ?p"
    using sortedPixels_rearranged [OF l(1)] by (simp add: rearranged_def)
  then have "set ?q = set ?p" by (rule mset_eq_setD)
  also note p
  finally have q: "\<And>v. v \<in> set ?q \<Longrightarrow> v = ?c" by auto
  have "convertToRGBA ?q (idata imageData) = idata imageData"
  proof (rule nth_equalityI)
    show "length (convertToRGBA ?q (idata imageData)) = length (idata imageData)"
      using l(3) by (rule convertToRGBA_nth(1))
    fix j assume "j < length (convertToRGBA ?q (idata imageData))"
    then have j: "j < length (idata imageData)"
      using convertToRGBA_nth(1) [OF l(3)] by simp
    define i where "i = j div 4"
    have "length (idata imageData) = 4 * length ?q" by (rule l(3))
    with j have i: "i < length ?q" unfolding i_def by linarith
    then have qi: "?q ! i = ?c" using q by simp
    have "int i < ?w * ?h" using i l(1,2) by simp
    with assms(2) have d: "idata imageData ! (i * 4) = r" "idata imageData ! (i * 4 + 1) = g"
      "idata imageData ! (i * 4 + 2) = b" "idata imageData ! (i * 4 + 3) = a"
      by simp_all
    from convertToRGBA_nth(2) [OF l(3) i]
    have o: "convertToRGBA ?q (idata imageData) ! (i * 4) = r"
      "convertToRGBA ?q (idata imageData) ! (i * 4 + 1) = g"
      "convertToRGBA ?q (idata imageData) ! (i * 4 + 2) = b"
      "convertToRGBA ?q (idata imageData) ! (i * 4 + 3) = a"
      unfolding qi using d by (simp_all add: unpack_red unpack_green unpack_blue)
    have "j = i * 4 \<or> j = i * 4 + 1 \<or> j = i * 4 + 2 \<or> j = i * 4 + 3"
      unfolding i_def by presburger
    with o d show "convertToRGBA ?q (idata imageData) ! j = idata imageData ! j"
      by auto
  qed
  then show ?thesis
    using sortImage_wellFormed [OF assms(1), of maxLength luma th mode] by simp
qed

theorem solid_colour_unchanged_witness:
  "wellFormed solidImage \<and>
   sortImage exampleMaxLength luma_exact PixelSorter solidImage Bright = Inr solidImage"
proof -
  have wf: "wellFormed solidImage"
    by (simp add: wellFormed_def solidImage_def)
  have solid: "\<forall>i. int i < iwidth solidImage * iheight solidImage \<longrightarrow>
      idata solidImage ! (i * 4) = 10 \<and> idata solidImage ! (i * 4 + 1) = 20 \<and>
      idata solidImage ! (i * 4 + 2) = 30 \<and> idata solidImage ! (i * 4 + 3) = 40"
  proof (intro allI impI)
    fix i :: nat
    assume "int i < iwidth solidImage * iheight solidImage"
    then have "i \<in> {0, 1, 2, 3, 4, 5}"
      by (auto simp: solidImage_def)
    then show "idata solidImage ! (i * 4) = 10 \<and> idata solidImage ! (i * 4 + 1) = 20 \<and>
      idata solidImage ! (i * 4 + 2) = 30 \<and> idata solidImage ! (i * 4 + 3) = 40"
      by (auto simp: solidImage_def)
  qed
  from solid_colour_unchanged [OF wf solid] wf show ?thesis by simp
qed

text \<open>
  Claim C10. On every well-formed buffer and in every mode, the red, green and blue bytes
  of every pixel of the last column and of the last row are in the output what they are in
  the input.
\<close>

theorem border_unchanged:
  assumes "wellFormed imageData"
  shows "\<exists>out. sortImage maxLength luma th imageData mode = Inr out \<and>
           (\<forall>x y. 0 \<le> x \<and> x < iwidth imageData \<and> 0 \<le> y \<and> y < iheight imageData \<and>
                  (x = iwidth imageData - 1 \<or> y = iheight imageData - 1) \<longrightarrow>
                  (\<forall>k<3. idata out ! (nat (x + y * iwidth imageData) * 4 + k) =
                         idata imageData ! (nat (x + y * iwidth imageData) * 4 + k)))"
proof -
  let ?w = "iwidth imageData" and ?h = "iheight imageData" and ?p = "packedPixels imageData"
  let ?q = "sortedPixels luma th ?p ?w ?h mode"
  note l = sorted_lengths [OF assms]
  have r: "rearranged (inner ?w ?h) ?p ?q"
    using l(1) by (rule sortedPixels_rearranged)
  have "convertToRGBA ?q (idata imageData) ! (nat (x + y * ?w) * 4 + k) =
        idata imageData ! (nat (x + y * ?w) * 4 + k)"
    if xy: "0 \<le> x" "x < ?w" "0 \<le> y" "y < ?h" "x = ?w - 1 \<or> y = ?h - 1" and k: "k < 3"
    for x y k
  proof -
    let ?j = "nat (x + y * ?w)"
    have range: "0 \<le> x + y * ?w" "x + y * ?w < ?w * ?h"
      using index_in_range [OF xy(1-4)] by simp_all
    then have j: "?j < length ?p" using l(1) by simp
    have "\<not> inner ?w ?h (int ?j)"
      using border_not_inner [OF xy] range by simp
    with r j have same: "?q ! ?j = ?p ! ?j" by (simp add: rearranged_def)
    have pj: "?p ! ?j = packRGB (ucast (idata imageData ! (?j * 4)))
        (ucast (idata imageData ! (?j * 4 + 1))) (ucast (idata imageData ! (?j * 4 + 2)))"
      using j by (simp add: packedPixels_def)
    have "?j < length ?q" using j l(2) by simp
    from convertToRGBA_nth(2) [OF l(3) this]
    have "convertToRGBA ?q (idata imageData) ! (?j * 4) = idata imageData ! (?j * 4)"
      "convertToRGBA ?q (idata imageData) ! (?j * 4 + 1) = idata imageData ! (?j * 4 + 1)"
      "convertToRGBA ?q (idata imageData) ! (?j * 4 + 2) = idata imageData ! (?j * 4 + 2)"
      unfolding same pj by (simp_all add: unpack_red unpack_green unpack_blue)
    moreover have "k = 0 \<or> k = 1 \<or> k = 2" using k by auto
    ultimately show ?thesis by auto
  qed
  then show ?thesis
    using sortImage_wellFormed [OF assms, of maxLength luma th mode] by simp
qed

theorem border_unchanged_witness:
  "wellFormed exampleImage \<and>
   (\<exists>out. sortImage exampleMaxLength luma_exact PixelSorter exampleImage White = Inr out \<and>
      (\<forall>x y. 0 \<le> x \<and> x < iwidth exampleImage \<and> 0 \<le> y \<and> y < iheight exampleImage \<and>
             (x = iwidth exampleImage - 1 \<or> y = iheight exampleImage - 1) \<longrightarrow>
             (\<forall>k<3. idata out ! (nat (x + y * iwidth exampleImage) * 4 + k) =
                    idata exampleImage ! (nat (x + y * iwidth exampleImage) * 4 + k))))"
  using border_unchanged [OF wellFormed_exampleImage,
      of exampleMaxLength luma_exact PixelSorter White]
    wellFormed_exampleImage
  by simp

section \<open>Progress reports\<close>

lemma every_tenth: "filter (\<lambda>c. c mod 10 = 0) [0..n] = map ((*) 10) [0..n div 10]"
proof (induction "nat (n + 1)" arbitrary: n)
  case 0
  then have "n < 0" by simp
  then have "n div 10 < 0" by (simp add: div_neg_pos_less0)
  with \<open>n < 0\<close> show ?case by simp
next
  case (Suc m)
  then have n: "0 \<le> n" and m: "m = nat (n - 1 + 1)" by simp_all
  have IH: "filter (\<lambda>c. c mod 10 = 0) [0..n - 1] = map ((*) 10) [0..(n - 1) div 10]"
    using Suc.hyps(1) [OF m] .
  have split: "[0..n] = [0..n - 1] @ [n]"
    using n by (simp add: upto_rec2)
  show ?case
  proof (cases "n mod 10 = 0")
    case True
    then obtain q where q: "n = 10 * q" by (auto simp: mod_eq_0_iff_dvd)
    have "(9 + (q - 1) * 10) div 10 = q - 1" by simp
    then have "(10 * q - 1) div 10 = q - 1" by (simp add: algebra_simps)
    with q have d: "(n - 1) div 10 = n div 10 - 1" "10 * (n div 10) = n" by simp_all
    have "0 \<le> n div 10" using n by simp
    then have "[0..n div 10] = [0..n div 10 - 1] @ [n div 10]"
      by (simp add: upto_rec2)
    with True d IH split show ?thesis by simp
  next
    case False
    define r where "r = n mod 10"
    define q where "q = n div 10"
    have r: "1 \<le> r" "r < 10" using False by (simp_all add: r_def)
    have nq: "n = (r - 1) + 1 + q * 10" by (simp add: r_def q_def)
    have "(r - 1 + q * 10) div 10 = q" using r by simp
    with nq have "(n - 1) div 10 = n div 10" by (simp add: q_def)
    with False IH split show ?thesis by simp
  qed
qed

lemma column_percentage:
  assumes "c \<in> set (filter (\<lambda>column. column mod 10 = 0) [0..width - 2])"
  shows "(0::rat) \<le> of_int c / of_int width * 50" "of_int c / of_int width * 50 \<le> (50::rat)"
proof -
  from assms have c: "0 \<le> c" "c \<le> width - 2" by auto
  then have w: "(0::rat) < of_int width" by simp
  show "(0::rat) \<le> of_int c / of_int width * 50"
    using c w by simp
  have "(of_int c :: rat) \<le> of_int width" using c by simp
  then have "(of_int c :: rat) / of_int width \<le> 1" using w by simp
  then have "(of_int c :: rat) / of_int width * 50 \<le> 1 * 50"
    by (intro mult_right_mono) simp_all
  then show "of_int c / of_int width * 50 \<le> (50::rat)" by simp
qed

lemma sorted_percentages:
  fixes d :: int
  assumes "0 < d"
  shows "sorted (map (\<lambda>c. (of_int c :: rat) / of_int d * 50) (filter P [0..n]))"
proof -
  have "sorted (map (\<lambda>c. (of_int c :: rat) / of_int d * 50) [0..n])"
    unfolding sorted_map
  proof (rule sorted_wrt_mono_rel [of _ "(\<le>)"])
    show "sorted_wrt (\<le>) [0..n]" by simp
    show "(of_int x :: rat) / of_int d * 50 \<le> of_int y / of_int d * 50" if "x \<le> y" for x y
      using that assms by (simp add: divide_right_mono)
  qed
  then show ?thesis by (rule sorted_filter)
qed

lemma row_percentage:
  assumes "r \<in> set (filter (\<lambda>row. row mod 10 = 0) [0..height - 2])"
  shows "(50::rat) \<le> 50 + of_int r / of_int height * 50"
    "50 + of_int r / of_int height * 50 \<le> (100::rat)"
  using column_percentage [OF assms] by simp_all

lemma sorted_row_percentages:
  fixes d :: int
  assumes "0 < d"
  shows "sorted (map (\<lambda>c. 50 + (of_int c :: rat) / of_int d * 50) (filter P [0..n]))"
proof -
  have "map (\<lambda>c. 50 + (of_int c :: rat) / of_int d * 50) (filter P [0..n]) =
        map ((+) 50) (map (\<lambda>c. (of_int c :: rat) / of_int d * 50) (filter P [0..n]))"
    by simp
  moreover have "sorted (map ((+) (50::rat)) xs)" if "sorted xs" for xs
    using that by (induction xs) auto
  ultimately show ?thesis using sorted_percentages [OF assms] by metis
qed

lemma sorted_phases:
  assumes "sorted cp" "sorted rp" "\<forall>p\<in>set cp. 0 \<le> p \<and> p \<le> 50"
    "\<forall>p\<in>set rp. 50 \<le> p \<and> p \<le> 100"
  shows "sorted ([0::rat] @ cp @ [50] @ rp @ [100])"
  using assms by (fastforce simp: sorted_append)

lemma progressCalls_properties:
  "progressCalls width height =
     [(0, ''Sorting columns...'')] @
     map (\<lambda>k. (of_int (10 * k) / of_int width * 50, ''Sorting columns...''))
       [0..(width - 2) div 10] @
     [(50, ''Sorting rows...'')] @
     map (\<lambda>k. (50 + of_int (10 * k) / of_int height * 50, ''Sorting rows...''))
       [0..(height - 2) div 10] @
     [(100, ''Complete!'')] \<and>
   sorted (map fst (progressCalls width height)) \<and>
   (\<forall>c\<in>set (progressCalls width height). 0 \<le> fst c \<and> fst c \<le> 100) \<and>
   last (progressCalls width height) = (100, ''Complete!'')"
proof (intro conjI)
  show "progressCalls width height =
     [(0, ''Sorting columns...'')] @
     map (\<lambda>k. (of_int (10 * k) / of_int width * 50, ''Sorting columns...''))
       [0..(width - 2) div 10] @
     [(50, ''Sorting rows...'')] @
     map (\<lambda>k. (50 + of_int (10 * k) / of_int height * 50, ''Sorting rows...''))
       [0..(height - 2) div 10] @
     [(100, ''Complete!'')]"
    by (simp add: progressCalls_def every_tenth comp_def)
  let ?cs = "filter (\<lambda>column. column mod 10 = 0) [0..width - 2]"
  let ?rs = "filter (\<lambda>row. row mod 10 = 0) [0..height - 2]"
  let ?cp = "map (\<lambda>c. (of_int c :: rat) / of_int width * 50) ?cs"
  let ?rp = "map (\<lambda>r. 50 + (of_int r :: rat) / of_int height * 50) ?rs"
  have fsts: "map fst (progressCalls width height) = [0] @ ?cp @ [50] @ ?rp @ [100]"
    by (simp add: progressCalls_def comp_def)
  have cp: "sorted ?cp"
  proof (cases "0 < width")
    case True
    then show ?thesis by (rule sorted_percentages)
  next
    case False
    then have "[0..width - 2] = []" by simp
    then show ?thesis by simp
  qed
  have rp: "sorted ?rp"
  proof (cases "0 < height")
    case True
    then show ?thesis by (rule sorted_row_percentages)
  next
    case False
    then have "[0..height - 2] = []" by simp
    then show ?thesis by simp
  qed
  have cb: "\<And>p. p \<in> set ?cp \<Longrightarrow> 0 \<le> p \<and> p \<le> 50"
    using column_percentage [of _ width] by auto
  have rb: "\<And>p. p \<in> set ?rp \<Longrightarrow> 50 \<le> p \<and> p \<le> 100"
    using row_percentage [of _ height] by auto
  show "sorted (map fst (progressCalls width height))"
    unfolding fsts using cp rp cb rb
    by (intro sorted_phases) blast+
  show "\<forall>c\<in>set (progressCalls width height). 0 \<le> fst c \<and> fst c \<le> 100"
  proof
    fix c assume "c \<in> set (progressCalls width height)"
    then have "fst c \<in> set (map fst (progressCalls width height))" by simp
    then have "fst c \<in> {0, 50, 100} \<union> set ?cp \<union> set ?rp"
      unfolding fsts by auto
    then show "0 \<le> fst c \<and> fst c \<le> 100"
      using cb [of "fst c"] rb [of "fst c"] by auto
  qed
  show "last (progressCalls width height) = (100, ''Complete!'')"
    by (simp add: progressCalls_def)
qed

text \<open>
  Claim C9. On a well-formed buffer, when a progress callback is supplied, the calls of the
  callback are: 0 with the label of the column phase; one call for each column
  \<open>0, 10, 20, \<dots>\<close> up to \<open>width - 2\<close>, with \<open>column / width * 50\<close>; 50 with the label of
  the row phase; one call for each row \<open>0, 10, 20, \<dots>\<close> up to \<open>height - 2\<close>, with
  \<open>50 + row / height * 50\<close>; and last 100 with \<open>Complete!\<close>. The percentages never
  decrease and lie between 0 and 100. (Rounding to double precision is monotone and keeps
  0, 50 and 100, so the order and the bounds hold of the doubles as of these rationals.)
\<close>

theorem progress_reports:
  assumes "wellFormed imageData"
  shows "sortImage_progress maxLength imageData =
     [(0, ''Sorting columns...'')] @
     map (\<lambda>k. (of_int (10 * k) / of_int (iwidth imageData) * 50, ''Sorting columns...''))
       [0..(iwidth imageData - 2) div 10] @
     [(50, ''Sorting rows...'')] @
     map (\<lambda>k. (50 + of_int (10 * k) / of_int (iheight imageData) * 50, ''Sorting rows...''))
       [0..(iheight imageData - 2) div 10] @
     [(100, ''Complete!'')] \<and>
   sorted (map fst (sortImage_progress maxLength imageData)) \<and>
   (\<forall>c\<in>set (sortImage_progress maxLength imageData). 0 \<le> fst c \<and> fst c \<le> 100) \<and>
   last (sortImage_progress maxLength imageData) = (100, ''Complete!'')"
proof -
  have eq: "sortImage_progress maxLength imageData =
      progressCalls (iwidth imageData) (iheight imageData)"
    using convertToRGB_packedPixels [OF assms, of maxLength]
    by (simp add: sortImage_progress_def Let_def)
  show ?thesis
    unfolding eq by (rule progressCalls_properties)
qed

theorem progress_reports_witness:
  "wellFormed \<lparr>iwidth = 25, iheight = 12, idata = replicate 1200 0\<rparr> \<and>
   sortImage_progress exampleMaxLength \<lparr>iwidth = 25, iheight = 12, idata = replicate 1200 0\<rparr> =
     [(0, ''Sorting columns...''), (0, ''Sorting columns...''), (20, ''Sorting columns...''),
      (40, ''Sorting columns...''), (50, ''Sorting rows...''), (50, ''Sorting rows...''),
      (275 / 3, ''Sorting rows...''), (100, ''Complete!'')] \<and>
   sorted (map fst (sortImage_progress exampleMaxLength
                      \<lparr>iwidth = 25, iheight = 12, idata = replicate 1200 0\<rparr>)) \<and>
   last (sortImage_progress exampleMaxLength
           \<lparr>iwidth = 25, iheight = 12, idata = replicate 1200 0\<rparr>) =
     (100, ''Complete!'')"
proof -
  have wf: "wellFormed \<lparr>iwidth = 25, iheight = 12, idata = replicate 1200 0\<rparr>"
    by (simp add: wellFormed_def)
  have "[0..(25 - 2) div 10] = [0, 1, (2::int)]" "[0..(12 - 2) div 10] = [0, (1::int)]"
    by (simp_all add: upto.simps)
  with progress_reports [OF wf, of exampleMaxLength] wf
  show ?thesis by simp
qed

section \<open>Raising the bright threshold\<close>










lemma pixelCount_Nil [simp]: "pixelCount w [] = 0"
  by (simp add: pixelCount_def)

lemma pixelCount_Cons [simp]: "pixelCount w ((s, e) # runs) = w (e - s) + pixelCount w runs"
  by (simp add: pixelCount_def)
























end
